theory Spec2Isabelle
  imports Complex_Main "HOL-Library.Sublist"
begin

section \<open>Strings and numbers of the JavaScript runtime\<close>

text \<open>
  Strings are lists of 8-bit characters. \<open>String.prototype.trim\<close> removes the white space
  and line terminator characters; those that fit in one byte are TAB, LF, VT, FF, CR, SP
  and NBSP.
\<close>

definition is_js_space :: "char \<Rightarrow> bool" where
  "is_js_space c =
     (c \<in> set [CHR 0x09, CHR 0x0A, CHR 0x0B, CHR 0x0C, CHR 0x0D, CHR 0x20, CHR 0xA0])"

definition trim :: "string \<Rightarrow> string" where
  "trim s = rev (dropWhile is_js_space (rev (dropWhile is_js_space s)))"

definition startsWith :: "string \<Rightarrow> string \<Rightarrow> bool" where
  "startsWith s p = (take (length p) s = p)"

text \<open>
  \<open>s.split(sep)\<close> for a non-empty separator: the pieces between the non-overlapping
  occurrences of \<open>sep\<close>, scanned from the left. \<open>cur\<close> is the piece being read, reversed.
\<close>

fun split_on :: "string \<Rightarrow> string \<Rightarrow> string \<Rightarrow> string list" where
  "split_on sep cur [] = [rev cur]"
| "split_on sep cur (c # cs) =
     (if sep \<noteq> [] \<and> startsWith (c # cs) sep
      then rev cur # split_on sep [] (drop (length sep) (c # cs))
      else split_on sep (c # cur) cs)"

definition split :: "string \<Rightarrow> string \<Rightarrow> string list" where
  "split s sep = split_on sep [] s"

text \<open>The markdown code fence: three backticks (character 0x60).\<close>

definition fence :: string where
  "fence = [CHR 0x60, CHR 0x60, CHR 0x60]"

text \<open>
  \<open>xs.slice(0, k)\<close> on an array or a string: a negative \<open>k\<close> counts from the end.
\<close>

definition slice0 :: "'a list \<Rightarrow> int \<Rightarrow> 'a list" where
  "slice0 xs k = (if k < 0 then take (nat (int (length xs) + k)) xs else take (nat k) xs)"

text \<open>
  JavaScript numbers are doubles. A finite double is a real number \<open>m * 2^e\<close> with an
  integer \<open>m\<close> of magnitude below \<open>2^53\<close> and \<open>-1074 \<le> e \<le> 971\<close>; the sign of zero is not
  kept. \<open>fl\<close> is the rounding of a real number to a double, to the nearest one and to
  the even significand in a tie: between \<open>2^k\<close> and \<open>2^(k+1)\<close> the doubles are the
  multiples of \<open>2^(k-52)\<close>, below \<open>2^-1022\<close> the multiples of \<open>2^-1074\<close>, and a result of
  magnitude \<open>2^1024\<close> or more is infinite. \<open>unit_roundoff\<close> bounds the relative error of
  a rounding that neither overflows nor underflows.
\<close>

datatype number = Num real | NaN | PosInfinity | NegInfinity

definition round_even :: "real \<Rightarrow> int" where
  "round_even r =
     (let f = \<lfloor>r\<rfloor> in
      if r - of_int f < 1 / 2 then f
      else if r - of_int f > 1 / 2 then f + 1
      else if even f then f else f + 1)"

definition ulp_exponent :: "real \<Rightarrow> int" where
  "ulp_exponent x = max \<lfloor>log 2 \<bar>x\<bar>\<rfloor> (- 1022) - 52"

definition fl :: "real \<Rightarrow> number" where
  "fl x =
     (if x = 0 then Num 0
      else
        let y = of_int (round_even (x / 2 powi ulp_exponent x)) * 2 powi ulp_exponent x
        in if \<bar>y\<bar> \<ge> 2 ^ 1024 then (if 0 < x then PosInfinity else NegInfinity) else Num y)"

definition unit_roundoff :: real where
  "unit_roundoff = 1 / 2 ^ 53"

text \<open>
  The operations of the language that the code applies to numbers: each returns the
  rounding of its exact result (\<open>Math.sqrt\<close> is taken to do so too), with the usual
  results at zero, at the infinities and at \<open>NaN\<close>. The left operand of \<open>*\<close> and of \<open>/\<close>
  is finite wherever the code uses them. \<open>Math.round\<close> rounds half up, exactly.
\<close>

definition js_times :: "real \<Rightarrow> real \<Rightarrow> number" where
  "js_times a b = fl (a * b)"

definition js_plus :: "number \<Rightarrow> number \<Rightarrow> number" where
  "js_plus x y =
     (case x of
        Num a \<Rightarrow> (case y of Num b \<Rightarrow> fl (a + b) | _ \<Rightarrow> y)
      | NaN \<Rightarrow> NaN
      | PosInfinity \<Rightarrow> (case y of NaN \<Rightarrow> NaN | NegInfinity \<Rightarrow> NaN | _ \<Rightarrow> PosInfinity)
      | NegInfinity \<Rightarrow> (case y of NaN \<Rightarrow> NaN | PosInfinity \<Rightarrow> NaN | _ \<Rightarrow> NegInfinity))"

definition Math_sqrt :: "number \<Rightarrow> number" where
  "Math_sqrt x =
     (case x of
        Num a \<Rightarrow> if a < 0 then NaN else fl (sqrt a)
      | PosInfinity \<Rightarrow> PosInfinity
      | _ \<Rightarrow> NaN)"

definition js_div :: "real \<Rightarrow> number \<Rightarrow> number" where
  "js_div a x =
     (case x of
        Num b \<Rightarrow>
          if b \<noteq> 0 then fl (a / b)
          else if a = 0 then NaN
          else if 0 < a then PosInfinity else NegInfinity
      | NaN \<Rightarrow> NaN
      | _ \<Rightarrow> Num 0)"

definition Math_round :: "real \<Rightarrow> real" where
  "Math_round x = of_int \<lfloor>x + 1 / 2\<rfloor>"

text \<open>
  What the code can throw: \<open>new Error(message)\<close>, the runtime's \<open>TypeError\<close> and
  \<open>SyntaxError\<close> (their messages are the engine's), and the error object of a failed
  datastore call.
\<close>

datatype exn = Error string | TypeError | SyntaxError | PostgrestError string

text \<open>
  A value \<open>JSON.parse\<close> returns. The annotation \<open>number[]\<close> of \<open>rerankMatches\<close> is not
  checked when the code runs, so the parsed array can hold any of these values. A number
  is given by its real value.
\<close>

datatype json =
    JNull
  | JBool bool
  | JNumber real
  | JString string
  | JArray "json list"
  | JObject "(string \<times> json) list"

text \<open>
  The conversion of a string to a number (\<open>StringToNumber\<close> of the language): white
  space around is dropped, the empty string is zero, then the string is a binary, octal
  or hexadecimal integer with its prefix, or a signed decimal literal (\<open>Infinity\<close>, or
  digits with an optional fraction and an optional exponent); anything else is \<open>NaN\<close>.
  \<open>digit_of\<close> is the value of a digit in a radix up to sixteen (sixteen for any other
  character). The value of a literal is kept as it is written, not rounded to a double:
  the code only compares it with zero and with the length of an array, and reads the
  element of the array by the text of the string, not by its value.
\<close>

definition is_digit :: "char \<Rightarrow> bool" where
  "is_digit c = (let n = (of_char c :: nat) in 48 \<le> n \<and> n \<le> 57)"

definition digit_of :: "char \<Rightarrow> nat" where
  "digit_of c =
     (let n = (of_char c :: nat) in
      if 48 \<le> n \<and> n \<le> 57 then n - 48
      else if 97 \<le> n \<and> n \<le> 102 then n - 87
      else if 65 \<le> n \<and> n \<le> 70 then n - 55
      else 16)"

definition digits_value :: "nat \<Rightarrow> string \<Rightarrow> nat" where
  "digits_value radix s = foldl (\<lambda>v c. radix * v + digit_of c) 0 s"

definition digits :: "nat \<Rightarrow> string \<Rightarrow> nat option" where
  "digits radix s =
     (if s \<noteq> [] \<and> list_all (\<lambda>c. digit_of c < radix) s then Some (digits_value radix s) else None)"

definition signed_integer :: "string \<Rightarrow> int option" where
  "signed_integer s =
     (case s of
        [] \<Rightarrow> None
      | c # ds \<Rightarrow>
          if c = CHR ''+'' then map_option int (digits 10 ds)
          else if c = CHR ''-'' then map_option (\<lambda>n. - int n) (digits 10 ds)
          else map_option int (digits 10 s))"

definition exponent_part :: "string \<Rightarrow> int option" where
  "exponent_part s =
     (case s of
        [] \<Rightarrow> Some 0
      | c # ds \<Rightarrow> if c = CHR ''e'' \<or> c = CHR ''E'' then signed_integer ds else None)"

definition unsigned_decimal :: "string \<Rightarrow> number" where
  "unsigned_decimal s =
     (if s = ''Infinity'' then PosInfinity
      else
        let ip = takeWhile is_digit s;
            after_ip = dropWhile is_digit s;
            fp = (case after_ip of [] \<Rightarrow> [] | c # r \<Rightarrow> if c = CHR ''.'' then takeWhile is_digit r else []);
            after_fp = (case after_ip of [] \<Rightarrow> []
                        | c # r \<Rightarrow> if c = CHR ''.'' then dropWhile is_digit r else after_ip)
        in if ip = [] \<and> fp = [] then NaN
           else
             (case exponent_part after_fp of
                None \<Rightarrow> NaN
              | Some e \<Rightarrow>
                  Num ((real (digits_value 10 ip) + real (digits_value 10 fp) / 10 ^ length fp)
                        * 10 powi e)))"

definition negate :: "number \<Rightarrow> number" where
  "negate x =
     (case x of Num a \<Rightarrow> Num (- a) | NaN \<Rightarrow> NaN | PosInfinity \<Rightarrow> NegInfinity
      | NegInfinity \<Rightarrow> PosInfinity)"

definition str_decimal :: "string \<Rightarrow> number" where
  "str_decimal s =
     (case s of
        [] \<Rightarrow> NaN
      | c # r \<Rightarrow>
          if c = CHR ''+'' then unsigned_decimal r
          else if c = CHR ''-'' then negate (unsigned_decimal r)
          else unsigned_decimal s)"

definition radix_prefix :: "string \<Rightarrow> nat option" where
  "radix_prefix s =
     (case s of
        z # p # ds \<Rightarrow>
          if z \<noteq> CHR ''0'' then None
          else if p = CHR ''x'' \<or> p = CHR ''X'' then Some 16
          else if p = CHR ''o'' \<or> p = CHR ''O'' then Some 8
          else if p = CHR ''b'' \<or> p = CHR ''B'' then Some 2
          else None
      | _ \<Rightarrow> None)"

definition StringToNumber :: "string \<Rightarrow> number" where
  "StringToNumber s =
     (let t = trim s in
      if t = [] then Num 0
      else
        (case radix_prefix t of
           Some radix \<Rightarrow>
             (case digits radix (drop 2 t) of None \<Rightarrow> NaN | Some n \<Rightarrow> Num (real n))
         | None \<Rightarrow> str_decimal t))"

text \<open>
  \<open>ToNumber\<close>, the conversion that \<open>idx < 0\<close> and \<open>idx >= matches.length\<close> apply to
  \<open>idx\<close>. An array or an object is first turned into its string: an object into
  \<open>[object Object]\<close>, an array into the strings of its elements joined by commas, where
  \<open>null\<close> gives the empty string. So the empty array is zero, an array of two or more
  elements is \<open>NaN\<close> (its string has a comma), and an array of one element is the number
  of that element's string; the string of a number reads back as that number.
\<close>

fun ToNumber :: "json \<Rightarrow> number" where
  "ToNumber JNull = Num 0"
| "ToNumber (JBool b) = Num (if b then 1 else 0)"
| "ToNumber (JNumber r) = Num r"
| "ToNumber (JString s) = StringToNumber s"
| "ToNumber (JObject fields) = NaN"
| "ToNumber (JArray []) = Num 0"
| "ToNumber (JArray [x]) =
     (case x of
        JNull \<Rightarrow> Num 0
      | JBool b \<Rightarrow> NaN
      | JObject fields \<Rightarrow> NaN
      | _ \<Rightarrow> ToNumber x)"
| "ToNumber (JArray (x # y # zs)) = NaN"

text \<open>
  A comparison of a converted value with a finite number: every comparison with \<open>NaN\<close>
  is false.
\<close>

definition js_less :: "number \<Rightarrow> real \<Rightarrow> bool" where
  "js_less x y = (case x of Num a \<Rightarrow> a < y | NegInfinity \<Rightarrow> True | _ \<Rightarrow> False)"

definition js_greater_eq :: "number \<Rightarrow> real \<Rightarrow> bool" where
  "js_greater_eq x y = (case x of Num a \<Rightarrow> a \<ge> y | PosInfinity \<Rightarrow> True | _ \<Rightarrow> False)"

text \<open>
  \<open>matches[idx]\<close> reads the property whose key is the string of \<open>idx\<close>. That key names
  an element of the array when it is the decimal text of an index, without sign, leading
  zero, fraction or exponent. \<open>array_index\<close> is that index: for a number, the number
  itself when it is a non-negative integer (an array has fewer than \<open>2^32 - 1\<close> elements,
  so the integers whose text has an exponent are beyond every array); for a string, its
  value when it is such a text; for an array of one element, the index of the element
  (the string of \<open>[x]\<close> is the string of \<open>x\<close>, and the empty string for \<open>null\<close>). The
  strings \<open>null\<close>, \<open>true\<close>, \<open>false\<close> and \<open>[object Object]\<close>, the empty string and a string
  with a comma are not indices.
\<close>

definition canonical_index :: "string \<Rightarrow> nat option" where
  "canonical_index s =
     (if s = ''0'' then Some 0
      else if s \<noteq> [] \<and> list_all is_digit s \<and> hd s \<noteq> CHR ''0'' then Some (digits_value 10 s)
      else None)"

fun array_index :: "json \<Rightarrow> nat option" where
  "array_index (JNumber r) = (if of_int \<lfloor>r\<rfloor> = r \<and> 0 \<le> r then Some (nat \<lfloor>r\<rfloor>) else None)"
| "array_index (JString s) = canonical_index s"
| "array_index (JArray [x]) = array_index x"
| "array_index _ = None"

section \<open>Data model\<close>

text \<open>The tables of the schema. A column without \<open>NOT NULL\<close> is an option.\<close>

record attendee_row =
  id_col :: int
  first_name :: "string option"
  last_name :: "string option"
  company :: "string option"
  job_title :: "string option"
  country :: "string option"
  linkedin :: "string option"
  swapcard :: "string option"
  biography :: "string option"

text \<open>A row of \<open>offerings\<close> or of \<open>requests\<close>: the two tables have the same columns.\<close>

record item_row =
  col_id :: int
  col_attendee_id :: "int option"
  col_text :: string
  col_embedding :: "real list option"

text \<open>A row returned by \<open>match_offerings\<close> and \<open>match_requests\<close>.\<close>

record match_row =
  attendee_id :: "int option"
  match_text :: string
  similarity :: real

text \<open>
  An element of the \<open>matches\<close> argument of \<open>rerankMatches\<close>: the row with its
  \<open>attendee\<close> (\<open>None\<close> is \<open>null\<close> or \<open>undefined\<close>).
\<close>

record candidate = match_row +
  attendee :: "attendee_row option"

record match_description =
  desc_index :: nat
  desc_attendee_id :: "int option"
  desc_name :: string
  desc_company :: "string option"
  desc_text :: string
  desc_similarity_score :: number

record final_result =
  res_name :: string
  res_company :: string
  res_job_title :: string
  res_country :: string
  res_text :: string
  res_similarity_score :: number
  res_linkedin :: string
  res_swapcard :: string
  res_biography :: string

section \<open>The outside world\<close>

datatype query_type = Request | Offering

datatype table = Offerings | Requests

text \<open>
  Every request the functions send out, newest first in the trace. The services answer
  from the trace (the request just sent is its head), so two equal requests may get
  different answers.
\<close>

datatype call =
    SyntheticCall string
  | EmbeddingCall string
  | RerankCall string query_type "match_description list" int
  | IlikeBothCall string string
  | IlikeEitherCall string string
  | SelectTextsCall table int
  | RpcCall table "number list" real int "int option"
  | AttendeeByIdCall "int option"

text \<open>
  The answer of the \<open>generateContent\<close> endpoint, as the code reads it: the fetch
  rejects; the status is not ok (status text, body text); the body is not JSON; the body
  is \<open>null\<close>; it has no candidates; the first candidate has no text; or it has a text.
  The embedding endpoint answers likewise, with the values of the embedding in place of
  the text. An error message that ends with the JSON text of the response is cut before
  that text.
\<close>

datatype gen_response =
    GenFetchFailed
  | GenHttpError string string
  | GenBodyInvalid
  | GenBodyNull
  | GenNoCandidates
  | GenNoText
  | GenText string

datatype embed_response =
    EmbedFetchFailed
  | EmbedHttpError string string
  | EmbedBodyInvalid
  | EmbedBodyNull
  | EmbedNoValues
  | EmbedValues "real list"

record world =
  JSON_parse :: "string \<Rightarrow> json option"
  generateContent :: "call list \<Rightarrow> gen_response"
  embedContent :: "call list \<Rightarrow> embed_response"
  pg_error :: "call list \<Rightarrow> string option"
  cosine_distance :: "real list \<Rightarrow> real list \<Rightarrow> real"
  attendees :: "attendee_row list"
  offerings :: "item_row list"
  requests :: "item_row list"

section \<open>gemini.ts\<close>

subsection \<open>generateEmbedding\<close>

text \<open>
  Lines 74 and 75: \<open>embedding.reduce((sum, val) => sum + val * val, 0)\<close>, its square root,
  and the division of every component by it.
\<close>

definition l2_normalize :: "real list \<Rightarrow> number list" where
  "l2_normalize embedding =
     (let norm = Math_sqrt (foldl (\<lambda>sum val. js_plus sum (js_times val val)) (Num 0) embedding)
      in map (\<lambda>val. js_div val norm) embedding)"

definition generateEmbedding ::
  "world \<Rightarrow> string \<Rightarrow> call list \<Rightarrow> (exn + number list) \<times> call list" where
  "generateEmbedding w txt tr =
     (if txt = [] then (Inl (Error ''generateEmbedding: text parameter is required''), tr)
      else
        let tr' = EmbeddingCall txt # tr in
        (case embedContent w tr' of
           EmbedFetchFailed \<Rightarrow> (Inl TypeError, tr')
         | EmbedHttpError statusText errorText \<Rightarrow>
             (Inl (Error (''Gemini embedding failed: '' @ statusText @ '' - '' @ errorText)), tr')
         | EmbedBodyInvalid \<Rightarrow> (Inl SyntaxError, tr')
         | EmbedBodyNull \<Rightarrow>
             (Inl (Error ''Gemini embedding: Response JSON parsing returned null/undefined''), tr')
         | EmbedNoValues \<Rightarrow>
             (Inl (Error ''No embedding in response. Full response: ''), tr')
         | EmbedValues embedding \<Rightarrow>
             (if length embedding = 0
              then (Inl (Error ''Empty embedding values. Full response: ''), tr')
              else (Inr (l2_normalize embedding), tr'))))"

subsection \<open>generateSyntheticOffering\<close>

definition generateSyntheticOffering ::
  "world \<Rightarrow> string \<Rightarrow> call list \<Rightarrow> (exn + string) \<times> call list" where
  "generateSyntheticOffering w request tr =
     (if request = []
      then (Inl (Error ''generateSyntheticOffering: request parameter is required''), tr)
      else
        let tr' = SyntheticCall request # tr in
        (case generateContent w tr' of
           GenFetchFailed \<Rightarrow> (Inl TypeError, tr')
         | GenHttpError statusText errorText \<Rightarrow>
             (Inl (Error (''Gemini LLM failed: '' @ statusText @ '' - '' @ errorText)), tr')
         | GenBodyInvalid \<Rightarrow> (Inl SyntaxError, tr')
         | GenBodyNull \<Rightarrow>
             (Inl (Error ''Gemini LLM: Response JSON parsing returned null/undefined''), tr')
         | GenNoCandidates \<Rightarrow>
             (Inl (Error ''No candidates in response. Full response: ''), tr')
         | GenNoText \<Rightarrow>
             (Inl (Error ''Invalid response structure. Full response: ''), tr')
         | GenText t \<Rightarrow>
             (if t = []
              then (Inl (Error ''Invalid response structure. Full response: ''), tr')
              else (Inr (trim t), tr'))))"

subsection \<open>rerankMatches\<close>

text \<open>A template literal prints \<open>null\<close> as the word; \<open>x || ''\<close> replaces it by the empty string.\<close>

definition template :: "string option \<Rightarrow> string" where
  "template v = (case v of None \<Rightarrow> ''null'' | Some s \<Rightarrow> s)"

definition or_empty :: "string option \<Rightarrow> string" where
  "or_empty v = (case v of None \<Rightarrow> [] | Some s \<Rightarrow> s)"

definition full_name :: "attendee_row \<Rightarrow> string" where
  "full_name a = template (first_name a) @ '' '' @ template (last_name a)"

text \<open>\<open>Math.round(s * 1000) / 1000\<close>; \<open>Math.round\<close> leaves an infinite product as it is.\<close>

definition rounded :: "real \<Rightarrow> number" where
  "rounded s =
     (case js_times s 1000 of
        Num p \<Rightarrow> js_div (Math_round p) (Num 1000)
      | product \<Rightarrow> product)"

text \<open>
  \<open>matches.map((match, idx) => ...)\<close> reads \<open>match.attendee.first_name\<close> of every element:
  a missing attendee throws a \<open>TypeError\<close> (the result \<open>None\<close>) before anything is sent.
\<close>

fun matchDescriptions :: "nat \<Rightarrow> candidate list \<Rightarrow> match_description list option" where
  "matchDescriptions idx [] = Some []"
| "matchDescriptions idx (m # ms) =
     (case attendee m of
        None \<Rightarrow> None
      | Some a \<Rightarrow>
          (case matchDescriptions (Suc idx) ms of
             None \<Rightarrow> None
           | Some ds \<Rightarrow>
               Some (\<lparr>desc_index = idx, desc_attendee_id = attendee_id m,
                      desc_name = full_name a, desc_company = company a,
                      desc_text = match_text m,
                      desc_similarity_score = rounded (similarity m)\<rparr> # ds)))"

text \<open>Lines 234 to 243: the text of the answer, trimmed, without its code fence.\<close>

definition clean_result_text :: "string \<Rightarrow> exn + string" where
  "clean_result_text t =
     (let resultText = trim t in
      if startsWith resultText fence then
        (case split resultText fence of
           _ # piece # _ \<Rightarrow>
             Inr (trim (if startsWith piece ''json'' then drop 4 piece else piece))
         | _ \<Rightarrow> Inl TypeError)
      else Inr resultText)"

text \<open>
  \<open>matches[idx]\<close>: the element when the key of \<open>idx\<close> is an index within the array.
  Under any other key the array has no element: the value read is \<open>undefined\<close> or a
  property every array has (its length, a method), which has no \<open>attendee\<close>, and the loop
  goes to the next element in both cases. \<open>None\<close> stands for both.
\<close>

definition element_at :: "'a list \<Rightarrow> json \<Rightarrow> 'a option" where
  "element_at xs idx =
     (case array_index idx of
        None \<Rightarrow> None
      | Some k \<Rightarrow> if k < length xs then Some (xs ! k) else None)"

definition to_final_result :: "candidate \<Rightarrow> attendee_row \<Rightarrow> final_result" where
  "to_final_result m a =
     \<lparr>res_name = full_name a,
      res_company = or_empty (company a),
      res_job_title = or_empty (job_title a),
      res_country = or_empty (country a),
      res_text = match_text m,
      res_similarity_score = rounded (similarity m),
      res_linkedin = or_empty (linkedin a),
      res_swapcard = or_empty (swapcard a),
      res_biography = or_empty (biography a)\<rparr>"

text \<open>The validation loop of lines 250 to 281; each \<open>continue\<close> is a step to the rest.\<close>

fun finalResults :: "candidate list \<Rightarrow> json list \<Rightarrow> final_result list" where
  "finalResults matches [] = []"
| "finalResults matches (idx # rest) =
     (if js_less (ToNumber idx) 0 \<or> js_greater_eq (ToNumber idx) (real (length matches))
      then finalResults matches rest
      else
        (case element_at matches idx of
           None \<Rightarrow> finalResults matches rest
         | Some m \<Rightarrow>
             (case attendee m of
                None \<Rightarrow> finalResults matches rest
              | Some a \<Rightarrow> to_final_result m a # finalResults matches rest)))"

text \<open>
  Line 245 and the head of the loop. \<open>JSON.parse\<close> throws a \<open>SyntaxError\<close> on a text
  that is not JSON. \<open>slice\<close> and \<open>for ... of\<close> work on an array and on a string, whose
  elements are its characters, each a string of length one; \<open>null\<close> and the values
  without a \<open>slice\<close> method (a number, a boolean, an object, whose property \<open>slice\<close>, if it
  has one, is not a function) make the call of \<open>slice\<close> throw a \<open>TypeError\<close>.
\<close>

definition select_results ::
  "world \<Rightarrow> candidate list \<Rightarrow> int \<Rightarrow> string \<Rightarrow> exn + final_result list" where
  "select_results w matches topK t =
     (case clean_result_text t of
        Inl e \<Rightarrow> Inl e
      | Inr resultText \<Rightarrow>
          (case JSON_parse w resultText of
             None \<Rightarrow> Inl SyntaxError
           | Some (JArray topIndices) \<Rightarrow> Inr (finalResults matches (slice0 topIndices topK))
           | Some (JString s) \<Rightarrow>
               Inr (finalResults matches (map (\<lambda>c. JString [c]) (slice0 s topK)))
           | Some _ \<Rightarrow> Inl TypeError))"

definition rerankMatches ::
  "world \<Rightarrow> string \<Rightarrow> query_type \<Rightarrow> candidate list \<Rightarrow> int \<Rightarrow> call list \<Rightarrow>
     (exn + final_result list) \<times> call list" where
  "rerankMatches w query queryType matches topK tr =
     (case matchDescriptions 0 matches of
        None \<Rightarrow> (Inl TypeError, tr)
      | Some descriptions \<Rightarrow>
          let tr' = RerankCall query queryType descriptions topK # tr in
          (case generateContent w tr' of
             GenFetchFailed \<Rightarrow> (Inl TypeError, tr')
           | GenHttpError statusText errorText \<Rightarrow>
               (Inl (Error (''Gemini re-ranking failed: '' @ statusText @ '' - '' @ errorText)),
                tr')
           | GenBodyInvalid \<Rightarrow> (Inl SyntaxError, tr')
           | GenBodyNull \<Rightarrow> (Inl TypeError, tr')
           | GenNoCandidates \<Rightarrow>
               (Inl (Error ''No candidates in re-ranking response. Full response: ''), tr')
           | GenNoText \<Rightarrow> (Inl TypeError, tr')
           | GenText t \<Rightarrow> (select_results w matches topK t, tr')))"

section \<open>The vector search functions of the schema\<close>

text \<open>
  \<open>match_offerings\<close> and \<open>match_requests\<close> are the same query over two tables. The
  operator \<open><=>\<close> is \<open>cosine_distance\<close> of the world; on a \<open>NULL\<close> embedding it is
  \<open>NULL\<close>, and a \<open>WHERE\<close> clause keeps a row only when it is true. The rows of a table are
  read in the order of the list. \<open>LIMIT\<close> refuses a negative count.
\<close>

definition excluded :: "int option \<Rightarrow> item_row \<Rightarrow> bool" where
  "excluded exclude_attendee_id row =
     (case exclude_attendee_id of
        None \<Rightarrow> False
      | Some x \<Rightarrow> (case col_attendee_id row of None \<Rightarrow> True | Some y \<Rightarrow> y = x))"

definition with_distance :: "world \<Rightarrow> real list \<Rightarrow> item_row \<Rightarrow> (item_row \<times> real) option" where
  "with_distance w query_embedding row =
     (case col_embedding row of
        None \<Rightarrow> None
      | Some e \<Rightarrow> Some (row, cosine_distance w e query_embedding))"

definition to_match_row :: "item_row \<times> real \<Rightarrow> match_row" where
  "to_match_row rd =
     \<lparr>attendee_id = col_attendee_id (fst rd), match_text = col_text (fst rd),
      similarity = 1 - snd rd\<rparr>"

definition match_rows ::
  "world \<Rightarrow> item_row list \<Rightarrow> real list \<Rightarrow> real \<Rightarrow> int \<Rightarrow> int option \<Rightarrow>
     string + match_row list" where
  "match_rows w rows query_embedding match_threshold match_count exclude_attendee_id =
     (if match_count < 0 then Inl ''LIMIT must not be negative''
      else
        Inr (map to_match_row
          (take (nat match_count)
            (sort_key snd
              (filter (\<lambda>rd. \<not> excluded exclude_attendee_id (fst rd)
                              \<and> 1 - snd rd > match_threshold)
                (List.map_filter (with_distance w query_embedding) rows))))))"

definition match_offerings ::
  "world \<Rightarrow> real list \<Rightarrow> real \<Rightarrow> int \<Rightarrow> int option \<Rightarrow> string + match_row list" where
  "match_offerings w = match_rows w (offerings w)"

definition match_requests ::
  "world \<Rightarrow> real list \<Rightarrow> real \<Rightarrow> int \<Rightarrow> int option \<Rightarrow> string + match_row list" where
  "match_requests w = match_rows w (requests w)"

section \<open>The datastore client\<close>

text \<open>
  A call of the client returns \<open>{data, error}\<close>: \<open>Inl\<close> is the error's message. The
  datastore can fail at any call (\<open>pg_error\<close>). A vector argument must be made of
  finite numbers.
\<close>

fun to_vector :: "number list \<Rightarrow> real list option" where
  "to_vector [] = Some []"
| "to_vector (Num x # xs) = (case to_vector xs of None \<Rightarrow> None | Some v \<Rightarrow> Some (x # v))"
| "to_vector (_ # xs) = None"

definition rpc ::
  "world \<Rightarrow> table \<Rightarrow> number list \<Rightarrow> real \<Rightarrow> int \<Rightarrow> int option \<Rightarrow> call list \<Rightarrow>
     (string + match_row list) \<times> call list" where
  "rpc w tbl query_embedding match_threshold match_count exclude_attendee_id tr =
     (let tr' = RpcCall tbl query_embedding match_threshold match_count exclude_attendee_id # tr in
      case pg_error w tr' of
        Some msg \<Rightarrow> (Inl msg, tr')
      | None \<Rightarrow>
          (case to_vector query_embedding of
             None \<Rightarrow> (Inl ''invalid input syntax for type vector'', tr')
           | Some q \<Rightarrow>
               (case tbl of
                  Offerings \<Rightarrow>
                    (match_offerings w q match_threshold match_count exclude_attendee_id, tr')
                | Requests \<Rightarrow>
                    (match_requests w q match_threshold match_count exclude_attendee_id, tr'))))"

text \<open>
  \<open>from('attendees').select('*').eq('id', id).single()\<close>: the row, or \<open>null\<close> when the
  call fails or does not find exactly one row.
\<close>

definition attendee_by_id :: "world \<Rightarrow> int option \<Rightarrow> call list \<Rightarrow> attendee_row option \<times> call list" where
  "attendee_by_id w aid tr =
     (let tr' = AttendeeByIdCall aid # tr in
      case pg_error w tr' of
        Some msg \<Rightarrow> (None, tr')
      | None \<Rightarrow>
          (case filter (\<lambda>a. Some (id_col a) = aid) (attendees w) of
             [a] \<Rightarrow> (Some a, tr')
           | _ \<Rightarrow> (None, tr')))"

text \<open>
  \<open>Promise.all(rawMatches.map(...))\<close> followed by the filter of the \<open>null\<close> entries: the
  matches whose attendee was found, each with its attendee.
\<close>

fun validMatches :: "world \<Rightarrow> match_row list \<Rightarrow> call list \<Rightarrow> candidate list \<times> call list" where
  "validMatches w [] tr = ([], tr)"
| "validMatches w (m # ms) tr =
     (case attendee_by_id w (attendee_id m) tr of
        (None, tr1) \<Rightarrow> validMatches w ms tr1
      | (Some a, tr1) \<Rightarrow>
          (case validMatches w ms tr1 of
             (cs, tr2) \<Rightarrow>
               (\<lparr>attendee_id = attendee_id m, match_text = match_text m,
                 similarity = similarity m, attendee = Some a\<rparr> # cs, tr2)))"

text \<open>\<open>from(table).select('text').eq('attendee_id', id)\<close>.\<close>

definition select_texts :: "world \<Rightarrow> table \<Rightarrow> int \<Rightarrow> call list \<Rightarrow> (string + string list) \<times> call list" where
  "select_texts w tbl aid tr =
     (let tr' = SelectTextsCall tbl aid # tr in
      case pg_error w tr' of
        Some msg \<Rightarrow> (Inl msg, tr')
      | None \<Rightarrow>
          (Inr (map col_text
                 (filter (\<lambda>row. col_attendee_id row = Some aid)
                   (case tbl of Offerings \<Rightarrow> offerings w | Requests \<Rightarrow> requests w))), tr'))"

text \<open>
  \<open>ILIKE\<close>: \<open>%\<close> stands for any run of characters and \<open>_\<close> for any one character; the
  client also reads \<open>*\<close> as \<open>%\<close>. Letters compare without case. The escape character is
  not modelled. A \<open>NULL\<close> column matches nothing. \<open>lower\<close> is the code of a character with
  the ASCII capitals folded to small letters.
\<close>

definition lower :: "char \<Rightarrow> nat" where
  "lower c = (let n = (of_char c :: nat) in if 65 \<le> n \<and> n \<le> 90 then n + 32 else n)"

fun ilike_pattern :: "string \<Rightarrow> string \<Rightarrow> bool" where
  "ilike_pattern [] v = (v = [])"
| "ilike_pattern (p # ps) v =
     (if p = CHR ''%'' \<or> p = CHR ''*'' then
        (ilike_pattern ps v \<or> (case v of [] \<Rightarrow> False | _ # vs \<Rightarrow> ilike_pattern (p # ps) vs))
      else
        (case v of
           [] \<Rightarrow> False
         | c # vs \<Rightarrow> (p = CHR ''_'' \<or> lower c = lower p) \<and> ilike_pattern ps vs))"

definition ilike :: "string option \<Rightarrow> string \<Rightarrow> bool" where
  "ilike column pattern = (case column of None \<Rightarrow> False | Some v \<Rightarrow> ilike_pattern pattern v)"

text \<open>
  The two searches of the attendees: \<open>.ilike('first_name', f).ilike('last_name', l).limit(1)\<close>
  and \<open>.or('first_name.ilike.%f%,last_name.ilike.%l%').limit(5)\<close>.
\<close>

definition ilike_both ::
  "world \<Rightarrow> string \<Rightarrow> string \<Rightarrow> call list \<Rightarrow> (string + attendee_row list) \<times> call list" where
  "ilike_both w firstName lastName tr =
     (let tr' = IlikeBothCall firstName lastName # tr in
      case pg_error w tr' of
        Some msg \<Rightarrow> (Inl msg, tr')
      | None \<Rightarrow>
          (Inr (take 1 (filter (\<lambda>a. ilike (first_name a) firstName \<and> ilike (last_name a) lastName)
                          (attendees w))), tr'))"

definition ilike_either ::
  "world \<Rightarrow> string \<Rightarrow> string \<Rightarrow> call list \<Rightarrow> (string + attendee_row list) \<times> call list" where
  "ilike_either w f l tr =
     (let tr' = IlikeEitherCall f l # tr in
      case pg_error w tr' of
        Some msg \<Rightarrow> (Inl msg, tr')
      | None \<Rightarrow>
          (Inr (take 5 (filter (\<lambda>a. ilike (first_name a) (''%'' @ f @ ''%'')
                                    \<or> ilike (last_name a) (''%'' @ l @ ''%''))
                          (attendees w))), tr'))"

section \<open>The entry points\<close>

text \<open>
  The request: a CORS preflight, or a call with a body. The body is not JSON, is \<open>null\<close>,
  or gives the field the function reads: absent (\<open>undefined\<close> or \<open>null\<close>), not a string,
  or a string.
\<close>

datatype param = Absent | NotString | Str string

datatype payload = InvalidJson | NullJson | Field param

datatype http_request = Options | Post payload

record attendee_summary =
  sum_name :: string
  sum_company :: "string option"
  sum_job_title :: "string option"
  sum_country :: "string option"

type_synonym group = "string \<times> final_result list"

datatype body =
    ErrorText string
  | Thrown exn
  | FlatResult string "final_result list"
  | UsernameResult attendee_summary "group list" "group list"

datatype response = CorsOk | JsonResponse nat body

subsection \<open>search-by-request\<close>

definition search_by_request :: "world \<Rightarrow> http_request \<Rightarrow> response \<times> call list" where
  "search_by_request w req =
     (case req of
        Options \<Rightarrow> (CorsOk, [])
      | Post InvalidJson \<Rightarrow> (JsonResponse 500 (Thrown SyntaxError), [])
      | Post NullJson \<Rightarrow> (JsonResponse 500 (Thrown TypeError), [])
      | Post (Field NotString) \<Rightarrow> (JsonResponse 500 (Thrown TypeError), [])
      | Post (Field Absent) \<Rightarrow>
          (JsonResponse 400 (ErrorText ''Request parameter is required and must be a string''), [])
      | Post (Field (Str request)) \<Rightarrow>
          if request = [] then
            (JsonResponse 400 (ErrorText ''Request parameter is required and must be a string''), [])
          else
            (case generateSyntheticOffering w request [] of
               (Inl e, tr1) \<Rightarrow> (JsonResponse 500 (Thrown e), tr1)
             | (Inr syntheticOffering, tr1) \<Rightarrow>
                 (case generateEmbedding w syntheticOffering tr1 of
                    (Inl e, tr2) \<Rightarrow> (JsonResponse 500 (Thrown e), tr2)
                  | (Inr queryEmbedding, tr2) \<Rightarrow>
                      (case rpc w Offerings queryEmbedding 0.5 50 None tr2 of
                         (Inl msg, tr3) \<Rightarrow> (JsonResponse 500 (Thrown (PostgrestError msg)), tr3)
                       | (Inr rawMatches, tr3) \<Rightarrow>
                           if rawMatches = [] then (JsonResponse 200 (FlatResult request []), tr3)
                           else
                             (case validMatches w rawMatches tr3 of
                                (valid, tr4) \<Rightarrow>
                                  (case rerankMatches w request Request valid 25 tr4 of
                                     (Inl e, tr5) \<Rightarrow> (JsonResponse 500 (Thrown e), tr5)
                                   | (Inr finalMatches, tr5) \<Rightarrow>
                                       (JsonResponse 200 (FlatResult request finalMatches), tr5)))))))"

subsection \<open>search-by-offering\<close>

definition search_by_offering :: "world \<Rightarrow> http_request \<Rightarrow> response \<times> call list" where
  "search_by_offering w req =
     (case req of
        Options \<Rightarrow> (CorsOk, [])
      | Post InvalidJson \<Rightarrow> (JsonResponse 500 (Thrown SyntaxError), [])
      | Post NullJson \<Rightarrow> (JsonResponse 500 (Thrown TypeError), [])
      | Post (Field NotString) \<Rightarrow> (JsonResponse 500 (Thrown TypeError), [])
      | Post (Field Absent) \<Rightarrow>
          (JsonResponse 400 (ErrorText ''Offering parameter is required and must be a string''), [])
      | Post (Field (Str offering)) \<Rightarrow>
          if offering = [] then
            (JsonResponse 400 (ErrorText ''Offering parameter is required and must be a string''), [])
          else
            (case generateEmbedding w offering [] of
               (Inl e, tr1) \<Rightarrow> (JsonResponse 500 (Thrown e), tr1)
             | (Inr queryEmbedding, tr1) \<Rightarrow>
                 (case rpc w Requests queryEmbedding 0.5 50 None tr1 of
                    (Inl msg, tr2) \<Rightarrow> (JsonResponse 500 (Thrown (PostgrestError msg)), tr2)
                  | (Inr rawMatches, tr2) \<Rightarrow>
                      if rawMatches = [] then (JsonResponse 200 (FlatResult offering []), tr2)
                      else
                        (case validMatches w rawMatches tr2 of
                           (valid, tr3) \<Rightarrow>
                             (case rerankMatches w offering Offering valid 25 tr3 of
                                (Inl e, tr4) \<Rightarrow> (JsonResponse 500 (Thrown e), tr4)
                              | (Inr finalMatches, tr4) \<Rightarrow>
                                  (JsonResponse 200 (FlatResult offering finalMatches), tr4))))))"

subsection \<open>search-by-username: the resolution of the name\<close>

text \<open>\<open>s.split(/\s+/)\<close> and \<open>parts.join(sep)\<close>.\<close>

function split_ws :: "string \<Rightarrow> string \<Rightarrow> string list" where
  "split_ws cur [] = [rev cur]"
| "split_ws cur (c # cs) =
     (if is_js_space c then rev cur # split_ws [] (dropWhile is_js_space cs)
      else split_ws (c # cur) cs)"
  by pat_completeness auto
termination
  by (relation "measure (\<lambda>(cur, s). length s)") (auto simp: length_dropWhile_le le_imp_less_Suc)

fun join :: "string list \<Rightarrow> string \<Rightarrow> string" where
  "join [] sep = []"
| "join [x] sep = x"
| "join (x # y # ys) sep = x @ sep @ join (y # ys) sep"

definition nameParts :: "string \<Rightarrow> string list" where
  "nameParts name = split_ws [] (trim name)"

text \<open>
  The variables \<open>attendees\<close> and \<open>searchError\<close> of the function. A strategy that runs
  overwrites both; \<open>no_rows\<close> is the test \<open>!attendees || attendees.length === 0\<close>.
\<close>

type_synonym search_state = "attendee_row list option \<times> string option"

definition no_rows :: "attendee_row list option \<Rightarrow> bool" where
  "no_rows rows = (case rows of None \<Rightarrow> True | Some rs \<Rightarrow> rs = [])"

definition query_result :: "(string + attendee_row list) \<Rightarrow> search_state" where
  "query_result r = (case r of Inl msg \<Rightarrow> (None, Some msg) | Inr rows \<Rightarrow> (Some rows, None))"

definition strategy1 :: "world \<Rightarrow> string \<Rightarrow> call list \<Rightarrow> search_state \<times> call list" where
  "strategy1 w name tr =
     (if length (nameParts name) \<ge> 2 then
        (let firstName = hd (nameParts name);
             lastName = join (tl (nameParts name)) '' ''
         in case ilike_both w firstName lastName tr of (r, tr1) \<Rightarrow> (query_result r, tr1))
      else ((None, None), tr))"

definition strategy2 :: "world \<Rightarrow> string \<Rightarrow> search_state \<times> call list \<Rightarrow> search_state \<times> call list" where
  "strategy2 w name st =
     (case st of
        ((rows, searchError), tr) \<Rightarrow>
          if no_rows rows then
            (case ilike_either w name name tr of (r, tr1) \<Rightarrow> (query_result r, tr1))
          else st)"

definition strategy3 :: "world \<Rightarrow> string \<Rightarrow> search_state \<times> call list \<Rightarrow> search_state \<times> call list" where
  "strategy3 w name st =
     (case st of
        ((rows, searchError), tr) \<Rightarrow>
          if no_rows rows \<and> length (nameParts name) \<ge> 2 then
            (let firstName = hd (nameParts name);
                 lastName = last (nameParts name)
             in case ilike_either w firstName lastName tr of (r, tr1) \<Rightarrow> (query_result r, tr1))
          else st)"

text \<open>
  The outcome of lines 37 to 114: the search error is thrown, or no attendee is found, or
  the first row is the attendee.
\<close>

datatype resolution = SearchFailed string | NotFound | Found attendee_row

definition resolve_attendee :: "world \<Rightarrow> string \<Rightarrow> call list \<Rightarrow> resolution \<times> call list" where
  "resolve_attendee w name tr =
     (case strategy3 w name (strategy2 w name (strategy1 w name tr)) of
        ((rows, searchError), tr1) \<Rightarrow>
          (case searchError of
             Some msg \<Rightarrow> (SearchFailed msg, tr1)
           | None \<Rightarrow>
               (case rows of
                  None \<Rightarrow> (NotFound, tr1)
                | Some [] \<Rightarrow> (NotFound, tr1)
                | Some (a # _) \<Rightarrow> (Found a, tr1))))"

subsection \<open>search-by-username: the matches of one request and of one offering\<close>

text \<open>
  From the vector search to the group of one item (lines 172 to 228, and 243 to 299).
  \<open>Inl\<close> is an exception that leaves the loop; \<open>Inr None\<close> pushes nothing; \<open>Inr (Some ms)\<close>
  pushes the group with the matches \<open>ms\<close>.
\<close>

definition match_item ::
  "world \<Rightarrow> table \<Rightarrow> query_type \<Rightarrow> int \<Rightarrow> string \<Rightarrow> number list \<Rightarrow> call list \<Rightarrow>
     (exn + final_result list option) \<times> call list" where
  "match_item w tbl queryType attendee_id' item_text queryEmbedding tr =
     (case rpc w tbl queryEmbedding 0.5 50 (Some attendee_id') tr of
        (Inl matchError, tr1) \<Rightarrow> (Inr None, tr1)
      | (Inr rawMatches, tr1) \<Rightarrow>
          if rawMatches = [] then (Inr None, tr1)
          else
            (case validMatches w rawMatches tr1 of
               (valid, tr2) \<Rightarrow>
                 if valid = [] then (Inr None, tr2)
                 else
                   (case rerankMatches w item_text queryType valid 25 tr2 of
                      (Inl e, tr3) \<Rightarrow> (Inl e, tr3)
                    | (Inr finalMatches, tr3) \<Rightarrow> (Inr (Some finalMatches), tr3))))"

definition request_matches ::
  "world \<Rightarrow> int \<Rightarrow> string \<Rightarrow> call list \<Rightarrow> (exn + final_result list option) \<times> call list" where
  "request_matches w attendee_id' request_text tr =
     (case generateSyntheticOffering w request_text tr of
        (Inl e, tr1) \<Rightarrow> (Inl e, tr1)
      | (Inr syntheticOffering, tr1) \<Rightarrow>
          (case generateEmbedding w syntheticOffering tr1 of
             (Inl e, tr2) \<Rightarrow> (Inl e, tr2)
           | (Inr queryEmbedding, tr2) \<Rightarrow>
               match_item w Offerings Request attendee_id' request_text queryEmbedding tr2))"

definition offering_matches ::
  "world \<Rightarrow> int \<Rightarrow> string \<Rightarrow> call list \<Rightarrow> (exn + final_result list option) \<times> call list" where
  "offering_matches w attendee_id' offering_text tr =
     (case generateEmbedding w offering_text tr of
        (Inl e, tr1) \<Rightarrow> (Inl e, tr1)
      | (Inr queryEmbedding, tr1) \<Rightarrow>
          match_item w Requests Offering attendee_id' offering_text queryEmbedding tr1)"

text \<open>The two \<open>for\<close> loops: the groups pushed, in the order of the items.\<close>

fun groups_loop ::
  "(string \<Rightarrow> call list \<Rightarrow> (exn + final_result list option) \<times> call list) \<Rightarrow>
     string list \<Rightarrow> call list \<Rightarrow> (exn + group list) \<times> call list" where
  "groups_loop step [] tr = (Inr [], tr)"
| "groups_loop step (item_text # rest) tr =
     (case step item_text tr of
        (Inl e, tr1) \<Rightarrow> (Inl e, tr1)
      | (Inr pushed, tr1) \<Rightarrow>
          (case groups_loop step rest tr1 of
             (Inl e, tr2) \<Rightarrow> (Inl e, tr2)
           | (Inr groups, tr2) \<Rightarrow>
               (Inr ((case pushed of None \<Rightarrow> [] | Some ms \<Rightarrow> [(item_text, ms)]) @ groups), tr2)))"

subsection \<open>search-by-username: the handler\<close>

definition summary :: "attendee_row \<Rightarrow> attendee_summary" where
  "summary a =
     \<lparr>sum_name = full_name a, sum_company = company a, sum_job_title = job_title a,
      sum_country = country a\<rparr>"

definition bidirectional :: "world \<Rightarrow> attendee_row \<Rightarrow> call list \<Rightarrow> response \<times> call list" where
  "bidirectional w a tr =
     (case select_texts w Offerings (id_col a) tr of
        (Inl msg, tr1) \<Rightarrow>
          (JsonResponse 500 (Thrown (Error (''Database error fetching offerings: '' @ msg))), tr1)
      | (Inr offering_texts, tr1) \<Rightarrow>
          (case select_texts w Requests (id_col a) tr1 of
             (Inl msg, tr2) \<Rightarrow>
               (JsonResponse 500 (Thrown (Error (''Database error fetching requests: '' @ msg))), tr2)
           | (Inr request_texts, tr2) \<Rightarrow>
               (case groups_loop (request_matches w (id_col a)) request_texts tr2 of
                  (Inl e, tr3) \<Rightarrow> (JsonResponse 500 (Thrown e), tr3)
                | (Inr people_who_can_help_you, tr3) \<Rightarrow>
                    (case groups_loop (offering_matches w (id_col a)) offering_texts tr3 of
                       (Inl e, tr4) \<Rightarrow> (JsonResponse 500 (Thrown e), tr4)
                     | (Inr people_you_can_help, tr4) \<Rightarrow>
                         (JsonResponse 200
                            (UsernameResult (summary a) people_who_can_help_you people_you_can_help),
                          tr4)))))"

definition search_by_username :: "world \<Rightarrow> http_request \<Rightarrow> response \<times> call list" where
  "search_by_username w req =
     (case req of
        Options \<Rightarrow> (CorsOk, [])
      | Post InvalidJson \<Rightarrow> (JsonResponse 500 (Thrown SyntaxError), [])
      | Post NullJson \<Rightarrow> (JsonResponse 500 (Thrown TypeError), [])
      | Post (Field NotString) \<Rightarrow>
          (JsonResponse 400 (ErrorText ''Name parameter is required and must be a string''), [])
      | Post (Field Absent) \<Rightarrow>
          (JsonResponse 400 (ErrorText ''Name parameter is required and must be a string''), [])
      | Post (Field (Str name)) \<Rightarrow>
          if name = [] then
            (JsonResponse 400 (ErrorText ''Name parameter is required and must be a string''), [])
          else
            (case resolve_attendee w name [] of
               (SearchFailed msg, tr1) \<Rightarrow> (JsonResponse 500 (Thrown (PostgrestError msg)), tr1)
             | (NotFound, tr1) \<Rightarrow>
                 (JsonResponse 404
                    (ErrorText (''No attendee found matching '' @ [CHR 0x27] @ name @ [CHR 0x27])), tr1)
             | (Found a, tr1) \<Rightarrow> bidirectional w a tr1))"

section \<open>Vocabulary of the statements\<close>

text \<open>
  An element of the parsed array that the validation loop accepts: its key is an index
  within the candidate list and the candidate there has its attendee; the result built
  from the candidate at an index, and from the candidate an element names. \<open>is_number\<close>
  tells the numbers from the other values.
\<close>

definition valid_index :: "candidate list \<Rightarrow> json \<Rightarrow> bool" where
  "valid_index ms e =
     (case array_index e of
        None \<Rightarrow> False
      | Some k \<Rightarrow> k < length ms \<and> attendee (ms ! k) \<noteq> None)"

definition result_at :: "candidate list \<Rightarrow> nat \<Rightarrow> final_result" where
  "result_at ms k = to_final_result (ms ! k) (the (attendee (ms ! k)))"

definition result_of :: "candidate list \<Rightarrow> json \<Rightarrow> final_result" where
  "result_of ms e = result_at ms (the (array_index e))"


text \<open>
  A result list of a vector search over \<open>rows\<close>: in descending order of similarity,
  every similarity above the threshold and equal to one minus the distance of a stored
  embedding to the query, and at most \<open>k\<close> entries.
\<close>

definition search_result ::
  "world \<Rightarrow> item_row list \<Rightarrow> real list \<Rightarrow> real \<Rightarrow> int \<Rightarrow> match_row list \<Rightarrow> bool" where
  "search_result w rows q threshold k rs \<longleftrightarrow>
     sorted_wrt (\<lambda>a b. similarity a \<ge> similarity b) rs
     \<and> (\<forall>r\<in>set rs. similarity r > threshold
            \<and> (\<exists>row\<in>set rows. \<exists>e. col_embedding row = Some e
                  \<and> similarity r = 1 - cosine_distance w e q
                  \<and> attendee_id r = col_attendee_id row \<and> match_text r = col_text row))
     \<and> int (length rs) \<le> k"

text \<open>
  Calls and results of the identity mode for the attendee with id \<open>x\<close>: a vector search
  that excludes \<open>x\<close> and a re-ranking whose candidates are not of \<open>x\<close>; a candidate that
  carries an attendee of the table other than \<open>x\<close>; a result built from such a candidate.
  A call is benign when it is neither a vector search nor a re-ranking.
\<close>

definition call_ok :: "int \<Rightarrow> call \<Rightarrow> bool" where
  "call_ok x c =
     (case c of
        RpcCall tbl q threshold k exclude \<Rightarrow> exclude = Some x
      | RerankCall query queryType ds topK \<Rightarrow> (\<forall>d\<in>set ds. desc_attendee_id d \<noteq> Some x)
      | _ \<Rightarrow> True)"

definition from_other :: "world \<Rightarrow> int \<Rightarrow> candidate \<Rightarrow> bool" where
  "from_other w x c \<longleftrightarrow>
     (\<exists>a. attendee c = Some a \<and> a \<in> set (attendees w)
        \<and> attendee_id c = Some (id_col a) \<and> id_col a \<noteq> x)"

definition not_self :: "world \<Rightarrow> int \<Rightarrow> final_result \<Rightarrow> bool" where
  "not_self w x r \<longleftrightarrow>
     (\<exists>m a. r = to_final_result m a \<and> a \<in> set (attendees w)
        \<and> attendee_id m = Some (id_col a) \<and> id_col a \<noteq> x)"

definition benign :: "call \<Rightarrow> bool" where
  "benign c =
     (case c of
        RpcCall tbl q threshold k exclude \<Rightarrow> False
      | RerankCall query queryType ds topK \<Rightarrow> False
      | _ \<Rightarrow> True)"

definition is_rerank :: "call \<Rightarrow> bool" where
  "is_rerank c = (case c of RerankCall query queryType ds topK \<Rightarrow> True | _ \<Rightarrow> False)"

text \<open>
  The candidates of one item of the attendee \<open>x\<close> in the identity mode: the rows that
  the item's own vector search returns (none when the search fails), each with its
  attendee, without the rows whose attendee is not found. The query of a request is the
  embedding of its synthetic offering, the query of an offering the embedding of its
  text; \<open>Inl\<close> is an exception of one of these two services.
\<close>

definition search_candidates ::
  "world \<Rightarrow> table \<Rightarrow> int \<Rightarrow> number list \<Rightarrow> call list \<Rightarrow> candidate list \<times> call list" where
  "search_candidates w tbl x q tr =
     (case rpc w tbl q 0.5 50 (Some x) tr of
        (Inl msg, tr1) \<Rightarrow> ([], tr1)
      | (Inr raw, tr1) \<Rightarrow> validMatches w raw tr1)"

definition request_candidates ::
  "world \<Rightarrow> int \<Rightarrow> string \<Rightarrow> call list \<Rightarrow> (exn + candidate list) \<times> call list" where
  "request_candidates w x request_text tr =
     (case generateSyntheticOffering w request_text tr of
        (Inl e, tr1) \<Rightarrow> (Inl e, tr1)
      | (Inr syntheticOffering, tr1) \<Rightarrow>
          (case generateEmbedding w syntheticOffering tr1 of
             (Inl e, tr2) \<Rightarrow> (Inl e, tr2)
           | (Inr q, tr2) \<Rightarrow>
               (case search_candidates w Offerings x q tr2 of (cs, tr3) \<Rightarrow> (Inr cs, tr3))))"

definition offering_candidates ::
  "world \<Rightarrow> int \<Rightarrow> string \<Rightarrow> call list \<Rightarrow> (exn + candidate list) \<times> call list" where
  "offering_candidates w x offering_text tr =
     (case generateEmbedding w offering_text tr of
        (Inl e, tr1) \<Rightarrow> (Inl e, tr1)
      | (Inr q, tr1) \<Rightarrow>
          (case search_candidates w Requests x q tr1 of (cs, tr2) \<Rightarrow> (Inr cs, tr2)))"

text \<open>
  The groups of a list of items, in the words of the amended claim. The items are taken
  in order, each from the trace the one before has left. An item whose search gives no
  candidate has no group. An item with candidates has one group: its text with what the
  re-ranking of these candidates returns, whatever the length of that list. \<open>gs\<close> are the
  groups of the items and \<open>tr'\<close> is the trace after the last item.
\<close>

fun item_groups ::
  "(string \<Rightarrow> call list \<Rightarrow> (exn + candidate list) \<times> call list) \<Rightarrow>
   (string \<Rightarrow> candidate list \<Rightarrow> call list \<Rightarrow> (exn + final_result list) \<times> call list) \<Rightarrow>
   string list \<Rightarrow> call list \<Rightarrow> group list \<Rightarrow> call list \<Rightarrow> bool" where
  "item_groups candidates rerank [] tr gs tr' = (gs = [] \<and> tr' = tr)"
| "item_groups candidates rerank (item_text # rest) tr gs tr' =
     (case candidates item_text tr of
        (Inl e, tr1) \<Rightarrow> False
      | (Inr cs, tr1) \<Rightarrow>
          if cs = [] then item_groups candidates rerank rest tr1 gs tr'
          else
            (case rerank item_text cs tr1 of
               (Inl e, tr2) \<Rightarrow> False
             | (Inr ms, tr2) \<Rightarrow>
                 (case gs of
                    [] \<Rightarrow> False
                  | g # gs' \<Rightarrow> g = (item_text, ms) \<and> item_groups candidates rerank rest tr2 gs' tr')))"

text \<open>
  The error of a re-ranking whose answer cannot be read. \<open>tr\<close> is a trace whose head is
  a re-ranking call; the answer to that call is a text whose cleaned form \<open>JSON.parse\<close>
  rejects (a \<open>SyntaxError\<close>) or reads as a value that is neither an array nor a string (a
  \<open>TypeError\<close>). A trace is settled when no re-ranking call in it had such an answer.
\<close>

definition sliceable :: "json \<Rightarrow> bool" where
  "sliceable v = (case v of JArray xs \<Rightarrow> True | JString s \<Rightarrow> True | _ \<Rightarrow> False)"

definition rerank_parse_error :: "world \<Rightarrow> call list \<Rightarrow> exn option" where
  "rerank_parse_error w tr =
     (case tr of
        [] \<Rightarrow> None
      | c # _ \<Rightarrow>
          if is_rerank c then
            (case generateContent w tr of
               GenText t \<Rightarrow>
                 (case clean_result_text t of
                    Inl e \<Rightarrow> None
                  | Inr resultText \<Rightarrow>
                      (case JSON_parse w resultText of
                         None \<Rightarrow> Some SyntaxError
                       | Some v \<Rightarrow> if sliceable v then None else Some TypeError))
             | _ \<Rightarrow> None)
          else None)"

definition settled :: "world \<Rightarrow> call list \<Rightarrow> bool" where
  "settled w tr \<longleftrightarrow> (\<forall>tr_f. suffix tr_f tr \<longrightarrow> rerank_parse_error w tr_f = None)"

text \<open>
  A run stopped by the error \<open>e\<close> of a re-ranking: the call whose answer cannot be read
  is the last call of the trace, and the trace before it is settled.
\<close>

definition stopped_by :: "world \<Rightarrow> call list \<Rightarrow> exn \<Rightarrow> bool" where
  "stopped_by w tr e \<longleftrightarrow> rerank_parse_error w tr = Some e \<and> settled w (tl tr)"

text \<open>
  The resolution of a name in the words of the specification: (i) with at least two
  tokens, the attendees whose first name equals the first token and whose last name
  equals the remaining tokens, without case; (ii) the attendees one of whose names
  contains the whole input, without case; (iii) with at least two tokens, the attendees
  whose first name contains the first token or whose last name contains the last token.
  A tier runs only when the one before gave no row; the first row of the first tier that
  gives one is the attendee. The second component lists the tiers that ran.

  A character is literal when it has no meaning of its own in a pattern of \<open>ILIKE\<close> (the
  wildcards and the escape character) or in the filter syntax of the datastore client.
\<close>

definition literal_char :: "char \<Rightarrow> bool" where
  "literal_char c \<longleftrightarrow>
     c \<notin> set [CHR ''%'', CHR ''_'', CHR ''*'', CHR 0x5C, CHR '','', CHR ''('', CHR '')'',
               CHR 0x22, CHR ''.'', CHR '':'']"

definition ci_equal :: "string option \<Rightarrow> string \<Rightarrow> bool" where
  "ci_equal column s = (case column of None \<Rightarrow> False | Some v \<Rightarrow> map lower v = map lower s)"

definition ci_contains :: "string option \<Rightarrow> string \<Rightarrow> bool" where
  "ci_contains column s =
     (case column of None \<Rightarrow> False | Some v \<Rightarrow> sublist (map lower s) (map lower v))"

datatype tier = Tier1 | Tier2 | Tier3

definition tier_call :: "string \<Rightarrow> tier \<Rightarrow> call" where
  "tier_call name t =
     (case t of
        Tier1 \<Rightarrow> IlikeBothCall (hd (nameParts name)) (join (tl (nameParts name)) '' '')
      | Tier2 \<Rightarrow> IlikeEitherCall name name
      | Tier3 \<Rightarrow> IlikeEitherCall (hd (nameParts name)) (last (nameParts name)))"

definition identity_resolution_spec :: "attendee_row list \<Rightarrow> string \<Rightarrow> resolution \<times> tier list" where
  "identity_resolution_spec tbl name =
     (let tokens = nameParts name;
          rows1 = filter (\<lambda>a. ci_equal (first_name a) (hd tokens)
                              \<and> ci_equal (last_name a) (join (tl tokens) '' '')) tbl;
          rows2 = filter (\<lambda>a. ci_contains (first_name a) name \<or> ci_contains (last_name a) name) tbl;
          rows3 = filter (\<lambda>a. ci_contains (first_name a) (hd tokens)
                              \<or> ci_contains (last_name a) (last tokens)) tbl
      in if length tokens \<ge> 2 then
           (case rows1 of
              a # _ \<Rightarrow> (Found a, [Tier1])
            | [] \<Rightarrow>
                (case rows2 of
                   a # _ \<Rightarrow> (Found a, [Tier1, Tier2])
                 | [] \<Rightarrow>
                     (case rows3 of
                        a # _ \<Rightarrow> (Found a, [Tier1, Tier2, Tier3])
                      | [] \<Rightarrow> (NotFound, [Tier1, Tier2, Tier3]))))
         else
           (case rows2 of
              a # _ \<Rightarrow> (Found a, [Tier2])
            | [] \<Rightarrow> (NotFound, [Tier2])))"

text \<open>
  A vector of finite numbers whose Euclidean norm is one.
\<close>

definition unit_vector :: "number list \<Rightarrow> bool" where
  "unit_vector v \<longleftrightarrow>
     (case to_vector v of None \<Rightarrow> False | Some xs \<Rightarrow> sqrt (\<Sum>x\<leftarrow>xs. x * x) = 1)"

section \<open>A small world for the examples\<close>

text \<open>
  Two attendees; each has one offering and one request. Every embedding is at distance
  \<open>1/4\<close> of every query, the embedding service answers the vector \<open>[1]\<close>, the datastore
  never fails, and the generative service answers \<open>I can mentor\<close> to a transformation and
  the text \<open>t\<close> to a re-ranking.
\<close>

definition ada :: attendee_row where
  "ada = \<lparr>id_col = 1, first_name = Some ''Ada'', last_name = Some ''Lovelace'',
     company = Some ''Engines'', job_title = None, country = Some ''UK'',
     linkedin = None, swapcard = None, biography = None\<rparr>"

definition bob :: attendee_row where
  "bob = \<lparr>id_col = 7, first_name = Some ''Bob'', last_name = Some ''Xu'',
     company = None, job_title = Some ''Researcher'', country = None,
     linkedin = None, swapcard = None, biography = None\<rparr>"

text \<open>
  The texts the example parser reads: arrays of numbers, and the array \<open>["1", [0]]\<close> of
  a string and an array (\<open>0x22\<close> is the double quote).
\<close>

definition ex_coerced :: string where
  "ex_coerced = ''['' @ [CHR 0x22] @ ''1'' @ [CHR 0x22] @ '', [0]]''"

definition ex_parse :: "string \<Rightarrow> json option" where
  "ex_parse s =
     (if s = ''[0, 0]'' then Some (JArray [JNumber 0, JNumber 0])
      else if s = ''[0, 5, 0.5]'' then Some (JArray [JNumber 0, JNumber 5, JNumber 0.5])
      else if s = ''[]'' then Some (JArray [])
      else if s = ex_coerced then Some (JArray [JString ''1'', JArray [JNumber 0]])
      else None)"

definition ex_generate :: "string \<Rightarrow> call list \<Rightarrow> gen_response" where
  "ex_generate t tr =
     (case tr of SyntheticCall request # _ \<Rightarrow> GenText ''I can mentor'' | _ \<Rightarrow> GenText t)"

definition ex_world :: "string \<Rightarrow> world" where
  "ex_world t =
     \<lparr>JSON_parse = ex_parse,
      generateContent = ex_generate t,
      embedContent = (\<lambda>tr. EmbedValues [1]),
      pg_error = (\<lambda>tr. None),
      cosine_distance = (\<lambda>e q. 1 / 4),
      attendees = [ada, bob],
      offerings =
        [\<lparr>col_id = 1, col_attendee_id = Some 7, col_text = ''I can mentor on AI safety'',
          col_embedding = Some [1]\<rparr>,
         \<lparr>col_id = 2, col_attendee_id = Some 1, col_text = ''I can review grant proposals'',
          col_embedding = Some [1]\<rparr>],
      requests =
        [\<lparr>col_id = 1, col_attendee_id = Some 1, col_text = ''I need mentorship in AI safety'',
          col_embedding = Some [1]\<rparr>,
         \<lparr>col_id = 2, col_attendee_id = Some 7, col_text = ''Looking for grant reviewers'',
          col_embedding = Some [1]\<rparr>]\<rparr>"

definition ex_candidate :: candidate where
  "ex_candidate =
     \<lparr>attendee_id = Some 7, match_text = ''I can mentor on AI safety'', similarity = 3 / 4,
      attendee = Some bob\<rparr>"

definition ex_fenced :: string where
  "ex_fenced = fence @ ''json'' @ [CHR 0x0A] @ ''['' @ ''0, 0'' @ '']'' @ [CHR 0x0A] @ fence @ []"

definition ex_candidate2 :: candidate where
  "ex_candidate2 =
     \<lparr>attendee_id = Some 7, match_text = ''Looking for grant reviewers'', similarity = 3 / 4,
      attendee = Some bob\<rparr>"


text \<open>
  Variants of the world: a generative service that answers the re-ranking of a request
  with an array and the re-ranking of an offering with a text that is not JSON; every
  embedding far from every query; a datastore that fails at every call; an embedding
  service that answers the zero vector, one that answers \<open>[3, 4]\<close>, one that answers
  \<open>[2^600, 2^600]\<close> and one that answers \<open>[2^-600]\<close>.
\<close>

definition mixed_generate :: "call list \<Rightarrow> gen_response" where
  "mixed_generate tr =
     (case tr of
        SyntheticCall request # _ \<Rightarrow> GenText ''I can mentor''
      | RerankCall query Request ds topK # _ \<Rightarrow> GenText ''[0, 0]''
      | _ \<Rightarrow> GenText ''sorry, no JSON'')"

definition mixed_world :: world where
  "mixed_world = (ex_world [])\<lparr>generateContent := mixed_generate\<rparr>"

definition far_world :: world where
  "far_world = (ex_world [])\<lparr>cosine_distance := (\<lambda>e q. 3 / 4)\<rparr>"

definition failing_world :: world where
  "failing_world = (ex_world [])\<lparr>pg_error := (\<lambda>tr. Some ''connection refused'')\<rparr>"

definition zero_embedding_world :: world where
  "zero_embedding_world = (ex_world [])\<lparr>embedContent := (\<lambda>tr. EmbedValues [0, 0])\<rparr>"

definition pythagorean_world :: world where
  "pythagorean_world = (ex_world [])\<lparr>embedContent := (\<lambda>tr. EmbedValues [3, 4])\<rparr>"

definition overflowing_world :: world where
  "overflowing_world = (ex_world [])\<lparr>embedContent := (\<lambda>tr. EmbedValues [2 ^ 600, 2 ^ 600])\<rparr>"

definition underflowing_world :: world where
  "underflowing_world = (ex_world [])\<lparr>embedContent := (\<lambda>tr. EmbedValues [1 / 2 ^ 600])\<rparr>"

section \<open>Lemmas on the arithmetic of doubles\<close>

lemma round_even_error: "\<bar>of_int (round_even r) - r\<bar> \<le> 1 / 2"
proof -
  have "of_int \<lfloor>r\<rfloor> \<le> r" "r < of_int \<lfloor>r\<rfloor> + 1" by linarith+
  then show ?thesis by (auto simp: round_even_def Let_def)
qed

lemma floor_log2_bounds:
  assumes "0 < x"
  shows "2 powi \<lfloor>log 2 x\<rfloor> \<le> x" "x < 2 powi (\<lfloor>log 2 x\<rfloor> + 1)"
proof -
  have "\<lfloor>log 2 x\<rfloor> = \<lfloor>log 2 x\<rfloor>" ..
  with assms have "2 powr (of_int \<lfloor>log 2 x\<rfloor>) \<le> x \<and> x < 2 powr (of_int \<lfloor>log 2 x\<rfloor> + 1)"
    by (subst (asm) floor_log_eq_powr_iff) simp_all
  moreover have "2 powr (of_int \<lfloor>log 2 x\<rfloor>) = (2::real) powi \<lfloor>log 2 x\<rfloor>"
    by (rule powr_real_of_int') simp_all
  moreover have "2 powr (of_int \<lfloor>log 2 x\<rfloor> + 1) = (2::real) powi (\<lfloor>log 2 x\<rfloor> + 1)"
    using powr_real_of_int'[of 2 "\<lfloor>log 2 x\<rfloor> + 1"] by simp
  ultimately show "2 powi \<lfloor>log 2 x\<rfloor> \<le> x" "x < 2 powi (\<lfloor>log 2 x\<rfloor> + 1)" by simp_all
qed

lemma floor_log2_ge:
  assumes "2 powi k \<le> x"
  shows "k \<le> \<lfloor>log 2 x\<rfloor>"
proof -
  have pos: "0 < x" using assms zero_less_power_int[of "2::real" k] by linarith
  have "(2::real) powi k < 2 powi (\<lfloor>log 2 x\<rfloor> + 1)"
    using assms floor_log2_bounds(2)[OF pos] by linarith
  then have "k < \<lfloor>log 2 x\<rfloor> + 1"
    by (metis linorder_not_less one_le_numeral power_int_increasing)
  then show ?thesis by simp
qed

lemma fl_normal:
  assumes lo: "2 powi (- 1022) \<le> \<bar>x\<bar>" and hi: "\<bar>x\<bar> \<le> 2 ^ 1023"
  shows "\<exists>y. fl x = Num y \<and> \<bar>y - x\<bar> \<le> \<bar>x\<bar> / 2 ^ 53"
proof -
  let ?e = "\<lfloor>log 2 \<bar>x\<bar>\<rfloor>"
  let ?q = "(2::real) powi (?e - 52)"
  let ?y = "of_int (round_even (x / ?q)) * ?q"
  have pos: "0 < \<bar>x\<bar>" using lo zero_less_power_int[of "2::real" "- 1022"] by linarith
  then have nz: "x \<noteq> 0" by simp
  from floor_log2_ge[OF lo] have e: "- 1022 \<le> ?e" .
  then have ue: "ulp_exponent x = ?e - 52" by (simp add: ulp_exponent_def)
  have q: "0 < ?q" by simp
  have "\<bar>?y - x\<bar> = \<bar>of_int (round_even (x / ?q)) - x / ?q\<bar> * ?q"
  proof -
    have "?y - x = (of_int (round_even (x / ?q)) - x / ?q) * ?q"
      using q by (simp add: field_simps)
    then show ?thesis using q by (simp add: abs_mult)
  qed
  also have "\<dots> \<le> (1 / 2) * ?q"
    using round_even_error[of "x / ?q"] q by (intro mult_right_mono) simp_all
  also have "(1 / 2) * ?q = 2 powi ?e / 2 ^ 53"
  proof -
    have "(2::real) powi (?e - 52) = 2 powi ?e / 2 ^ 52"
      by (simp add: power_int_diff)
    then show ?thesis by simp
  qed
  also have "\<dots> \<le> \<bar>x\<bar> / 2 ^ 53"
    using floor_log2_bounds(1)[OF pos] by (simp add: divide_right_mono)
  finally have err: "\<bar>?y - x\<bar> \<le> \<bar>x\<bar> / 2 ^ 53" .
  have "\<bar>?y\<bar> \<le> \<bar>x\<bar> + \<bar>x\<bar> / 2 ^ 53" using err by linarith
  also have "\<dots> \<le> 2 ^ 1023 + 2 ^ 1023 / 2 ^ 53" using hi by (simp add: add_mono divide_right_mono)
  also have "\<dots> < (2::real) ^ 1024" by simp
  finally have "\<not> \<bar>?y\<bar> \<ge> 2 ^ 1024" by simp
  with nz ue have "fl x = Num ?y" by (simp add: fl_def Let_def)
  with err show ?thesis by blast
qed

lemma u_pos: "0 < unit_roundoff" and u_small: "unit_roundoff \<le> 1 / 2"
  by (simp_all add: unit_roundoff_def)

lemma fl_zero: "fl 0 = Num 0"
  by (simp add: fl_def)

lemma fl_abs:
  assumes "z = 0 \<or> 1 / 2 ^ 1022 \<le> \<bar>z\<bar>" and "\<bar>z\<bar> \<le> 2 ^ 1023"
  shows "\<exists>y. fl z = Num y \<and> \<bar>z\<bar> * (1 - unit_roundoff) \<le> \<bar>y\<bar> \<and> \<bar>y\<bar> \<le> \<bar>z\<bar> * (1 + unit_roundoff)
           \<and> (0 \<le> z \<longrightarrow> 0 \<le> y)"
proof (cases "z = 0")
  case True
  then show ?thesis by (simp add: fl_zero)
next
  case False
  with assms(1) have "2 powi (- 1022) \<le> \<bar>z\<bar>" by simp
  from fl_normal[OF this assms(2)] obtain y where y: "fl z = Num y" "\<bar>y - z\<bar> \<le> \<bar>z\<bar> / 2 ^ 53"
    by blast
  define d where "d = \<bar>z\<bar> / 2 ^ 53"
  have d: "\<bar>y - z\<bar> \<le> d" using y(2) by (simp add: d_def)
  have dz: "d \<le> \<bar>z\<bar>"
  proof -
    have "\<bar>z\<bar> / 2 ^ 53 \<le> \<bar>z\<bar> / 1" by (rule divide_left_mono) simp_all
    then show ?thesis by (simp add: d_def)
  qed
  have e: "\<bar>z\<bar> * (1 - unit_roundoff) = \<bar>z\<bar> - d" "\<bar>z\<bar> * (1 + unit_roundoff) = \<bar>z\<bar> + d"
    by (simp_all add: d_def unit_roundoff_def algebra_simps)
  from d have "\<bar>z\<bar> - d \<le> \<bar>y\<bar>" "\<bar>y\<bar> \<le> \<bar>z\<bar> + d" by linarith+
  moreover from d dz have "0 \<le> z \<longrightarrow> 0 \<le> y" by linarith
  ultimately show ?thesis using y(1) e by auto
qed

lemma fl_rel:
  assumes "0 \<le> x" and "x = 0 \<or> 1 / 2 ^ 1022 \<le> x" and "x \<le> 2 ^ 1023"
  shows "\<exists>y. fl x = Num y \<and> x * (1 - unit_roundoff) \<le> y \<and> y \<le> x * (1 + unit_roundoff)"
proof -
  from assms have "x = 0 \<or> 1 / 2 ^ 1022 \<le> \<bar>x\<bar>" "\<bar>x\<bar> \<le> 2 ^ 1023" by auto
  from fl_abs[OF this] assms(1) obtain y where "fl x = Num y"
    "\<bar>x\<bar> * (1 - unit_roundoff) \<le> \<bar>y\<bar>" "\<bar>y\<bar> \<le> \<bar>x\<bar> * (1 + unit_roundoff)" "0 \<le> y" by blast
  with assms(1) show ?thesis by auto
qed

lemma square_scaled: "(\<bar>z\<bar> * c)\<^sup>2 = z * z * c\<^sup>2" for z c :: real
  by (simp add: power_mult_distrib power2_eq_square)

lemma fl_square_bounds:
  assumes "z = 0 \<or> 1 / 2 ^ 1022 \<le> \<bar>z\<bar>" and "\<bar>z\<bar> \<le> 2 ^ 1023"
  shows "\<exists>y. fl z = Num y \<and> z * z * (1 - unit_roundoff)\<^sup>2 \<le> y * y
           \<and> y * y \<le> z * z * (1 + unit_roundoff)\<^sup>2"
proof -
  from fl_abs[OF assms] obtain y where y: "fl z = Num y"
    "\<bar>z\<bar> * (1 - unit_roundoff) \<le> \<bar>y\<bar>" "\<bar>y\<bar> \<le> \<bar>z\<bar> * (1 + unit_roundoff)" by blast
  have yy: "\<bar>y\<bar>\<^sup>2 = y * y" by (simp add: power2_eq_square)
  have nn: "0 \<le> \<bar>z\<bar> * (1 - unit_roundoff)" using u_small by simp
  from power_mono[OF y(2) nn, of 2] have 1: "z * z * (1 - unit_roundoff)\<^sup>2 \<le> y * y"
    unfolding square_scaled yy .
  have "0 \<le> \<bar>y\<bar>" by simp
  from power_mono[OF y(3) this, of 2] have 2: "y * y \<le> z * z * (1 + unit_roundoff)\<^sup>2"
    unfolding square_scaled yy .
  from y(1) 1 2 show ?thesis by blast
qed

lemma js_times_square:
  assumes "x = 0 \<or> (1 / 2 ^ 500 \<le> \<bar>x\<bar> \<and> \<bar>x\<bar> \<le> 2 ^ 500)"
  shows "\<exists>p. js_times x x = Num p \<and> x * x * (1 - unit_roundoff) \<le> p
           \<and> p \<le> x * x * (1 + unit_roundoff)"
proof -
  have nn: "0 \<le> x * x" by simp
  have lo: "x * x = 0 \<or> 1 / 2 ^ 1022 \<le> x * x"
  proof (cases "x = 0")
    case True
    then show ?thesis by simp
  next
    case False
    with assms have "1 / 2 ^ 500 \<le> \<bar>x\<bar>" by simp
    then have "(1 / 2 ^ 500) * (1 / 2 ^ 500) \<le> \<bar>x\<bar> * \<bar>x\<bar>" by (intro mult_mono) simp_all
    moreover have "(1::real) / 2 ^ 1022 \<le> (1 / 2 ^ 500) * (1 / 2 ^ 500)" by simp
    ultimately have "1 / 2 ^ 1022 \<le> \<bar>x\<bar> * \<bar>x\<bar>" by (rule order_trans[rotated])
    then show ?thesis by simp
  qed
  have hi: "x * x \<le> 2 ^ 1023"
  proof -
    from assms have "\<bar>x\<bar> \<le> 2 ^ 500" by auto
    then have "\<bar>x\<bar> * \<bar>x\<bar> \<le> 2 ^ 500 * 2 ^ 500" by (intro mult_mono) simp_all
    moreover have "(2::real) ^ 500 * 2 ^ 500 \<le> 2 ^ 1023" by simp
    ultimately have "\<bar>x\<bar> * \<bar>x\<bar> \<le> 2 ^ 1023" by (rule order_trans)
    then show ?thesis by simp
  qed
  from fl_rel[OF nn lo hi] show ?thesis by (simp add: js_times_def)
qed

lemma sum_step:
  fixes A s p c d x :: real
  assumes A: "0 \<le> A" and s: "A * c \<le> s" "s \<le> A * d"
    and c: "0 < c" "c \<le> 1" and d: "1 \<le> d"
    and p: "x * x * (1 - unit_roundoff) \<le> p" "p \<le> x * x * (1 + unit_roundoff)"
    and A': "A + x * x = 0 \<or> 1 / 2 ^ 1000 \<le> A + x * x" "A + x * x \<le> 2 ^ 1020"
    and cd: "1 / 2 \<le> c * (1 - unit_roundoff)\<^sup>2" "d * (1 + unit_roundoff)\<^sup>2 \<le> 2"
  shows "\<exists>s'. js_plus (Num s) (Num p) = Num s'
           \<and> (A + x * x) * (c * (1 - unit_roundoff)\<^sup>2) \<le> s'
           \<and> s' \<le> (A + x * x) * (d * (1 + unit_roundoff)\<^sup>2)"
proof -
  define a where "a = 1 - unit_roundoff"
  define b where "b = 1 + unit_roundoff"
  have a: "0 < a" "a \<le> 1" and b: "1 \<le> b"
    using u_pos u_small by (simp_all add: a_def b_def)
  note p' = p[folded a_def b_def] and cd' = cd[folded a_def b_def]
  define A' where "A' = A + x * x"
  note A'' = A'[folded A'_def]
  have A'nn: "0 \<le> A'" using A by (simp add: A'_def)
  define t where "t = s + p"
  have xx: "0 \<le> x * x" by simp
  have lower: "A' * (c * a) \<le> t"
  proof -
    have "A * c * a \<le> A * c" using A c a by (intro mult_left_le) simp_all
    moreover have "x * x * a * c \<le> x * x * a" using a c xx by (intro mult_left_le) simp_all
    moreover have "A' * (c * a) = A * c * a + x * x * a * c" by (simp add: A'_def algebra_simps)
    ultimately have "A' * (c * a) \<le> A * c + x * x * a" by linarith
    with s(1) p'(1) show ?thesis by (simp add: t_def)
  qed
  have upper: "t \<le> A' * (d * b)"
  proof -
    have "A * d * 1 \<le> A * d * b" using A d b by (intro mult_left_mono) simp_all
    moreover have "x * x * b * 1 \<le> x * x * b * d" using b d xx by (intro mult_left_mono) simp_all
    moreover have "A' * (d * b) = A * d * b + x * x * b * d" by (simp add: A'_def algebra_simps)
    ultimately have "A * d + x * x * b \<le> A' * (d * b)" by linarith
    with s(2) p'(2) show ?thesis by (simp add: t_def)
  qed
  have ca: "1 / 2 \<le> c * a"
  proof -
    have "c * a * a \<le> c * a" using c a by (intro mult_left_le) simp_all
    with cd'(1) show ?thesis by (simp add: power2_eq_square)
  qed
  have db: "d * b \<le> 2"
  proof -
    have "d * b * 1 \<le> d * b * b" using d b by (intro mult_left_mono) simp_all
    with cd'(2) show ?thesis by (simp add: power2_eq_square)
  qed
  have tnn: "0 \<le> t"
  proof -
    have "0 \<le> A' * (c * a)" using A'nn c a by (intro mult_nonneg_nonneg) simp_all
    then show ?thesis using lower by (rule order_trans)
  qed
  have tlo: "t = 0 \<or> 1 / 2 ^ 1022 \<le> t"
  proof (cases "A' = 0")
    case True
    with upper tnn show ?thesis by simp
  next
    case False
    with A''(1) have "1 / 2 ^ 1000 \<le> A'" by simp
    then have "(1 / 2 ^ 1000) * (1 / 2) \<le> A' * (c * a)" using ca by (intro mult_mono) simp_all
    moreover have "(1::real) / 2 ^ 1022 \<le> (1 / 2 ^ 1000) * (1 / 2)" by simp
    ultimately have "1 / 2 ^ 1022 \<le> A' * (c * a)" by (rule order_trans[rotated])
    with lower show ?thesis by simp
  qed
  have thi: "t \<le> 2 ^ 1023"
  proof -
    have "A' * (d * b) \<le> 2 ^ 1020 * 2" using A''(2) db A'nn d b by (intro mult_mono) simp_all
    moreover have "(2::real) ^ 1020 * 2 \<le> 2 ^ 1023" by simp
    ultimately show ?thesis using upper by linarith
  qed
  from fl_rel[OF tnn tlo thi] obtain s' where s': "fl t = Num s'" "t * a \<le> s'" "s' \<le> t * b"
    unfolding a_def b_def by blast
  have "A' * (c * a) * a \<le> t * a" using lower a by (intro mult_right_mono) simp_all
  with s'(2) have 1: "A' * (c * a\<^sup>2) \<le> s'" by (simp add: power2_eq_square algebra_simps)
  have "t * b \<le> A' * (d * b) * b" using upper b by (intro mult_right_mono) simp_all
  with s'(3) have 2: "s' \<le> A' * (d * b\<^sup>2)" by (simp add: power2_eq_square algebra_simps)
  from s'(1) 1 2 show ?thesis
    unfolding a_def b_def A'_def t_def by (simp add: js_plus_def)
qed

lemma power_double_Suc: "a ^ (2 * Suc n) = a\<^sup>2 * a ^ (2 * n)" for a :: real
  by (simp add: power2_eq_square)

lemma square_ge:
  fixes x :: real
  assumes "1 / 2 ^ 500 \<le> \<bar>x\<bar>"
  shows "1 / 2 ^ 1000 \<le> x * x"
proof -
  from assms have "(1 / 2 ^ 500) * (1 / 2 ^ 500) \<le> \<bar>x\<bar> * \<bar>x\<bar>" by (intro mult_mono) simp_all
  then show ?thesis by simp
qed

lemma sum_squares_nonneg: "0 \<le> (\<Sum>x\<leftarrow>xs. x * x)" for xs :: "real list"
  by (rule sum_list_nonneg) auto

lemma fold_squares:
  fixes xs :: "real list"
  assumes "\<forall>x\<in>set xs. x = 0 \<or> (1 / 2 ^ 500 \<le> \<bar>x\<bar> \<and> \<bar>x\<bar> \<le> 2 ^ 500)"
    and "0 \<le> A" and "A = 0 \<or> 1 / 2 ^ 1000 \<le> A"
    and "A * c \<le> s" and "s \<le> A * d"
    and "0 < c" and "c \<le> 1" and "1 \<le> d"
    and "1 / 2 \<le> c * (1 - unit_roundoff) ^ (2 * length xs)"
    and "d * (1 + unit_roundoff) ^ (2 * length xs) \<le> 2"
    and "A + (\<Sum>x\<leftarrow>xs. x * x) \<le> 2 ^ 1020"
  shows "\<exists>s'. foldl (\<lambda>sum val. js_plus sum (js_times val val)) (Num s) xs = Num s'
           \<and> (A + (\<Sum>x\<leftarrow>xs. x * x)) * (c * (1 - unit_roundoff) ^ (2 * length xs)) \<le> s'
           \<and> s' \<le> (A + (\<Sum>x\<leftarrow>xs. x * x)) * (d * (1 + unit_roundoff) ^ (2 * length xs))"
  using assms
proof (induction xs arbitrary: A s c d)
  case Nil
  then show ?case by simp
next
  case (Cons x xs)
  define a where "a = 1 - unit_roundoff"
  define b where "b = 1 + unit_roundoff"
  have a: "0 < a" "a \<le> 1" and b: "1 \<le> b"
    using u_pos u_small by (simp_all add: a_def b_def)
  note prems = Cons.prems[folded a_def b_def]
  have an: "0 < a ^ (2 * length xs)" "a ^ (2 * length xs) \<le> 1"
    using a by (simp_all add: power_le_one)
  have bn: "1 \<le> b ^ (2 * length xs)" using b by (rule one_le_power)
  have a2: "0 < a\<^sup>2" "a\<^sup>2 \<le> 1" using a by (simp_all add: power_le_one)
  have b2: "1 \<le> b\<^sup>2" using b by (rule one_le_power)
  from prems(1) have x: "x = 0 \<or> (1 / 2 ^ 500 \<le> \<bar>x\<bar> \<and> \<bar>x\<bar> \<le> 2 ^ 500)"
    and xs: "\<forall>x\<in>set xs. x = 0 \<or> (1 / 2 ^ 500 \<le> \<bar>x\<bar> \<and> \<bar>x\<bar> \<le> 2 ^ 500)" by simp_all
  from js_times_square[folded a_def b_def, OF x] obtain p where p: "js_times x x = Num p"
    "x * x * a \<le> p" "p \<le> x * x * b" by blast
  define A' where "A' = A + x * x"
  have A'nn: "0 \<le> A'" using prems(2) by (simp add: A'_def)
  have A'lo: "A' = 0 \<or> 1 / 2 ^ 1000 \<le> A'"
  proof (cases "x = 0")
    case True
    with prems(3) show ?thesis by (simp add: A'_def)
  next
    case False
    with x have "1 / 2 ^ 500 \<le> \<bar>x\<bar>" by blast
    then have "1 / 2 ^ 1000 \<le> x * x" by (rule square_ge)
    with prems(2) have "1 / 2 ^ 1000 \<le> A'" by (simp add: A'_def)
    then show ?thesis ..
  qed
  have total: "A' + (\<Sum>x\<leftarrow>xs. x * x) \<le> 2 ^ 1020"
    using prems(11) by (simp add: A'_def add.assoc)
  have A'hi: "A' \<le> 2 ^ 1020"
    using total sum_squares_nonneg[of xs] by linarith
  have pa: "a ^ (2 * length (x # xs)) = a\<^sup>2 * a ^ (2 * length xs)"
    and pb: "b ^ (2 * length (x # xs)) = b\<^sup>2 * b ^ (2 * length xs)"
    by (simp_all add: power2_eq_square)
  have lo': "1 / 2 \<le> c * a\<^sup>2 * a ^ (2 * length xs)"
    using prems(9) unfolding pa by (simp only: mult.assoc)
  have hi': "d * b\<^sup>2 * b ^ (2 * length xs) \<le> 2"
    using prems(10) unfolding pb by (simp only: mult.assoc)
  have ca: "1 / 2 \<le> c * a\<^sup>2"
  proof -
    have "c * a\<^sup>2 * a ^ (2 * length xs) \<le> c * a\<^sup>2"
      using prems(6) a2 an by (intro mult_left_le) simp_all
    with lo' show ?thesis by linarith
  qed
  have db: "d * b\<^sup>2 \<le> 2"
  proof -
    have "0 \<le> d * b\<^sup>2" using prems(8) by simp
    from mult_left_mono[OF bn this] have "d * b\<^sup>2 \<le> d * b\<^sup>2 * b ^ (2 * length xs)" by simp
    with hi' show ?thesis by linarith
  qed
  from sum_step[folded a_def b_def, OF prems(2,4,5,6,7,8) p(2,3) A'lo[unfolded A'_def]
      A'hi[unfolded A'_def] ca db]
  obtain s1 where s1: "js_plus (Num s) (Num p) = Num s1"
    "A' * (c * a\<^sup>2) \<le> s1" "s1 \<le> A' * (d * b\<^sup>2)"
    unfolding A'_def by blast
  have c': "0 < c * a\<^sup>2" "c * a\<^sup>2 \<le> 1"
    using prems(6,7) a2 by (simp_all add: mult_le_one)
  have d': "1 \<le> d * b\<^sup>2"
    using prems(8) b2 by (metis mult_mono one_le_numeral mult_1 zero_le_one order_trans)
  from Cons.IH[folded a_def b_def, OF xs A'nn A'lo s1(2,3) c' d' lo' hi' total]
  obtain s' where s': "foldl (\<lambda>sum val. js_plus sum (js_times val val)) (Num s1) xs = Num s'"
    "(A' + (\<Sum>x\<leftarrow>xs. x * x)) * (c * a\<^sup>2 * a ^ (2 * length xs)) \<le> s'"
    "s' \<le> (A' + (\<Sum>x\<leftarrow>xs. x * x)) * (d * b\<^sup>2 * b ^ (2 * length xs))"
    by blast
  have run: "foldl (\<lambda>sum val. js_plus sum (js_times val val)) (Num s) (x # xs) = Num s'"
    using p(1) s1(1) s'(1) by simp
  have sum: "A + (\<Sum>y\<leftarrow>x # xs. y * y) = A' + (\<Sum>x\<leftarrow>xs. x * x)"
    by (simp add: A'_def)
  from s'(2,3) have "(A + (\<Sum>y\<leftarrow>x # xs. y * y)) * (c * a ^ (2 * length (x # xs))) \<le> s'"
    "s' \<le> (A + (\<Sum>y\<leftarrow>x # xs. y * y)) * (d * b ^ (2 * length (x # xs)))"
    unfolding sum pa pb by (simp_all add: mult.assoc)
  with run show ?case unfolding a_def b_def by blast
qed

lemma roundoff_powers:
  fixes k :: nat
  assumes "real k * unit_roundoff \<le> 1 / 2"
  shows "1 - real k * unit_roundoff \<le> (1 - unit_roundoff) ^ k"
    and "(1 + unit_roundoff) ^ k \<le> 1 / (1 - unit_roundoff) ^ k"
    and "1 / (1 - unit_roundoff) ^ k \<le> 1 + 2 * (real k * unit_roundoff)"
proof -
  define a where "a = 1 - unit_roundoff"
  define b where "b = 1 + unit_roundoff"
  define t where "t = real k * unit_roundoff"
  have a: "0 < a" "a \<le> 1" and b: "1 \<le> b"
    using u_pos u_small by (simp_all add: a_def b_def)
  have "- 1 \<le> - unit_roundoff" using u_small by simp
  from Bernoulli_inequality[OF this, of k] show 1: "1 - real k * unit_roundoff \<le> (1 - unit_roundoff) ^ k"
    by simp
  then have t1: "1 - t \<le> a ^ k" by (simp add: t_def a_def)
  have t: "t \<le> 1 / 2" "0 \<le> t" using assms u_pos by (simp_all add: t_def)
  have ak: "0 < a ^ k" using a by simp
  have "a * b \<le> 1"
  proof -
    have "a * b = 1 - unit_roundoff * unit_roundoff" by (simp add: a_def b_def algebra_simps)
    then show ?thesis by simp
  qed
  then have "(a * b) ^ k \<le> 1" using a b by (intro power_le_one) simp_all
  then have "a ^ k * b ^ k \<le> 1" by (simp add: power_mult_distrib)
  then have "b ^ k \<le> 1 / a ^ k" using ak by (simp add: field_simps)
  then show "(1 + unit_roundoff) ^ k \<le> 1 / (1 - unit_roundoff) ^ k" by (simp add: a_def b_def)
  have "1 \<le> (1 + 2 * t) * (1 - t)"
  proof -
    have "(1 + 2 * t) * (1 - t) = 1 + t * (1 - 2 * t)" by (simp add: algebra_simps)
    moreover have "0 \<le> t * (1 - 2 * t)" using t by (intro mult_nonneg_nonneg) simp_all
    ultimately show ?thesis by simp
  qed
  also have "(1 + 2 * t) * (1 - t) \<le> (1 + 2 * t) * a ^ k"
    using t1 t by (intro mult_left_mono) simp_all
  finally have "1 / a ^ k \<le> 1 + 2 * t" using ak by (simp add: field_simps)
  then show "1 / (1 - unit_roundoff) ^ k \<le> 1 + 2 * (real k * unit_roundoff)"
    by (simp add: a_def t_def)
qed

lemma small_count:
  fixes n :: nat
  assumes "n \<le> 2 ^ 20"
  shows "real (2 * n + 4) * unit_roundoff \<le> 1 / 2" and "real (2 * n) * unit_roundoff \<le> 1 / 2"
proof -
  from assms have "real n \<le> 2 ^ 20" by (metis of_nat_le_iff of_nat_numeral of_nat_power)
  then have "real (2 * n + 4) \<le> 2 ^ 22" "real (2 * n) \<le> 2 ^ 22" by simp_all
  then have "real (2 * n + 4) * unit_roundoff \<le> 2 ^ 22 * unit_roundoff"
    "real (2 * n) * unit_roundoff \<le> 2 ^ 22 * unit_roundoff"
    using u_pos by (simp_all add: mult_right_mono)
  moreover have "2 ^ 22 * unit_roundoff \<le> 1 / 2" by (simp add: unit_roundoff_def)
  ultimately show "real (2 * n + 4) * unit_roundoff \<le> 1 / 2"
    "real (2 * n) * unit_roundoff \<le> 1 / 2" by linarith+
qed

lemma sum_squares_le:
  fixes xs :: "real list"
  assumes "\<forall>x\<in>set xs. x * x \<le> M"
  shows "(\<Sum>x\<leftarrow>xs. x * x) \<le> real (length xs) * M"
  using assms by (induction xs) (auto simp: algebra_simps)

lemma sum_squares_ge:
  fixes xs :: "real list"
  assumes "x \<in> set xs"
  shows "x * x \<le> (\<Sum>x\<leftarrow>xs. x * x)"
proof -
  from assms have "x * x \<in> set (map (\<lambda>x. x * x) xs)" by auto
  then show ?thesis by (rule member_le_sum_list) auto
qed

lemma square_le:
  fixes x :: real
  assumes "\<bar>x\<bar> \<le> 2 ^ 500"
  shows "x * x \<le> 2 ^ 1000"
proof -
  from assms have "\<bar>x\<bar> * \<bar>x\<bar> \<le> 2 ^ 500 * 2 ^ 500" by (intro mult_mono) simp_all
  then show ?thesis by simp
qed

lemma quotients:
  fixes xs :: "real list" and N :: real
  assumes "\<forall>x\<in>set xs. x = 0 \<or> (1 / 2 ^ 500 \<le> \<bar>x\<bar> \<and> \<bar>x\<bar> \<le> 2 ^ 500)"
    and "1 / 2 ^ 502 \<le> N" and "N \<le> 2 ^ 512"
  shows "\<exists>ys. map (\<lambda>val. js_div val (Num N)) xs = map Num ys
           \<and> (\<Sum>x\<leftarrow>xs. x * x) / (N * N) * (1 - unit_roundoff)\<^sup>2 \<le> (\<Sum>y\<leftarrow>ys. y * y)
           \<and> (\<Sum>y\<leftarrow>ys. y * y) \<le> (\<Sum>x\<leftarrow>xs. x * x) / (N * N) * (1 + unit_roundoff)\<^sup>2"
  using assms(1)
proof (induction xs)
  case Nil
  then show ?case by simp
next
  case (Cons x xs)
  define a2 where "a2 = (1 - unit_roundoff)\<^sup>2"
  define b2 where "b2 = (1 + unit_roundoff)\<^sup>2"
  have N: "0 < N"
  proof -
    have "(0::real) < 1 / 2 ^ 502" by simp
    then show ?thesis using assms(2) by (rule less_le_trans)
  qed
  from Cons.prems have x: "x = 0 \<or> (1 / 2 ^ 500 \<le> \<bar>x\<bar> \<and> \<bar>x\<bar> \<le> 2 ^ 500)"
    and xs: "\<forall>x\<in>set xs. x = 0 \<or> (1 / 2 ^ 500 \<le> \<bar>x\<bar> \<and> \<bar>x\<bar> \<le> 2 ^ 500)" by simp_all
  from Cons.IH[OF xs, folded a2_def b2_def] obtain ys
    where ys: "map (\<lambda>val. js_div val (Num N)) xs = map Num ys"
      "(\<Sum>x\<leftarrow>xs. x * x) / (N * N) * a2 \<le> (\<Sum>y\<leftarrow>ys. y * y)"
      "(\<Sum>y\<leftarrow>ys. y * y) \<le> (\<Sum>x\<leftarrow>xs. x * x) / (N * N) * b2" by blast
  define z where "z = x / N"
  have zabs: "\<bar>z\<bar> = \<bar>x\<bar> / N" using N by (simp add: z_def)
  have zlo: "z = 0 \<or> 1 / 2 ^ 1022 \<le> \<bar>z\<bar>"
  proof (cases "x = 0")
    case True
    then show ?thesis by (simp add: z_def)
  next
    case False
    with x have "1 / 2 ^ 500 \<le> \<bar>x\<bar>" by blast
    then have "(1 / 2 ^ 500) / 2 ^ 512 \<le> \<bar>x\<bar> / N"
      using N assms(3) by (intro frac_le) simp_all
    moreover have "(1::real) / 2 ^ 1022 \<le> (1 / 2 ^ 500) / 2 ^ 512" by simp
    ultimately have "1 / 2 ^ 1022 \<le> \<bar>x\<bar> / N" by (rule order_trans[rotated])
    then show ?thesis by (simp add: zabs)
  qed
  have zhi: "\<bar>z\<bar> \<le> 2 ^ 1023"
  proof -
    from x have "\<bar>x\<bar> \<le> 2 ^ 500" by auto
    then have "\<bar>x\<bar> / N \<le> 2 ^ 500 / (1 / 2 ^ 502)"
      using assms(2) by (intro frac_le) simp_all
    moreover have "(2::real) ^ 500 / (1 / 2 ^ 502) \<le> 2 ^ 1023" by simp
    ultimately have "\<bar>x\<bar> / N \<le> 2 ^ 1023" by (rule order_trans)
    then show ?thesis by (simp add: zabs)
  qed
  from fl_square_bounds[OF zlo zhi, folded a2_def b2_def] obtain y
    where y: "fl z = Num y" "z * z * a2 \<le> y * y" "y * y \<le> z * z * b2" by blast
  have zz: "z * z = x * x / (N * N)" by (simp add: z_def)
  have d: "js_div x (Num N) = Num y" using N y(1) by (simp add: js_div_def z_def)
  have m: "map (\<lambda>val. js_div val (Num N)) (x # xs) = map Num (y # ys)"
    using d ys(1) by simp
  have split: "(\<Sum>x\<leftarrow>x # xs. x * x) / (N * N) * c
      = x * x / (N * N) * c + (\<Sum>x\<leftarrow>xs. x * x) / (N * N) * c" for c
    by (simp add: add_divide_distrib distrib_right)
  have lo: "(\<Sum>x\<leftarrow>x # xs. x * x) / (N * N) * a2 \<le> (\<Sum>y\<leftarrow>y # ys. y * y)"
    unfolding split using y(2) ys(2) by (simp add: zz)
  have hi: "(\<Sum>y\<leftarrow>y # ys. y * y) \<le> (\<Sum>x\<leftarrow>x # xs. x * x) / (N * N) * b2"
    unfolding split using y(3) ys(3) by (simp add: zz)
  from m lo hi show ?case unfolding a2_def b2_def by blast
qed

lemma sqrt_near_one:
  fixes T :: real
  assumes "0 \<le> T"
  shows "\<bar>sqrt T - 1\<bar> \<le> \<bar>T - 1\<bar>"
proof (cases "1 \<le> T")
  case True
  then have "T * 1 \<le> T * T" by (intro mult_left_mono) simp_all
  then have "T \<le> T\<^sup>2" by (simp add: power2_eq_square)
  with assms have "sqrt T \<le> T" by (intro real_le_lsqrt)
  moreover from True have "1 \<le> sqrt T" by simp
  ultimately show ?thesis using True by simp
next
  case False
  then have "T * T \<le> 1 * T" using assms by (intro mult_right_mono) simp_all
  then have "T\<^sup>2 \<le> T" by (simp add: power2_eq_square)
  then have "T \<le> sqrt T" by (rule real_le_rsqrt)
  moreover from False have "sqrt T \<le> 1" by simp
  ultimately show ?thesis using False by simp
qed

lemma l2_normalize_unit:
  fixes xs :: "real list"
  assumes range: "\<forall>x\<in>set xs. x = 0 \<or> (1 / 2 ^ 500 \<le> \<bar>x\<bar> \<and> \<bar>x\<bar> \<le> 2 ^ 500)"
    and nonzero: "\<exists>x\<in>set xs. x \<noteq> 0"
    and len: "length xs \<le> 2 ^ 20"
  shows "\<exists>ys N. l2_normalize xs = map Num ys
           \<and> 0 < N \<and> map (\<lambda>x. fl (x / N)) xs = map Num ys
           \<and> (\<Sum>x\<leftarrow>xs. x * x) * (1 - real (4 * length xs + 8) * unit_roundoff) \<le> N * N
           \<and> N * N \<le> (\<Sum>x\<leftarrow>xs. x * x) * (1 + real (4 * length xs + 8) * unit_roundoff)
           \<and> \<bar>sqrt (\<Sum>y\<leftarrow>ys. y * y) - 1\<bar> \<le> real (4 * length xs + 8) * unit_roundoff"
proof -
  define n where "n = length xs"
  define S where "S = (\<Sum>x\<leftarrow>xs. x * x)"
  define a where "a = 1 - unit_roundoff"
  define b where "b = 1 + unit_roundoff"
  have a: "0 < a" "a \<le> 1" "1 / 2 \<le> a" and b: "1 \<le> b" "b \<le> 2"
    using u_pos u_small by (simp_all add: a_def b_def)
  note cnt = small_count[OF len, folded n_def]
  note pw = roundoff_powers[OF cnt(2), folded a_def b_def]
  note pw4 = roundoff_powers[OF cnt(1), folded a_def b_def]
  have an: "0 < a ^ (2 * n)" using a by simp
  have an_half: "1 / 2 \<le> a ^ (2 * n)" using pw(1) cnt(2) by linarith
  have bn2: "b ^ (2 * n) \<le> 2" using pw(2,3) cnt(2) by linarith
  have bn1: "1 \<le> b ^ (2 * n)" using b by (intro one_le_power)
  have S_hi: "S \<le> 2 ^ 1020"
  proof -
    have "\<forall>x\<in>set xs. x * x \<le> 2 ^ 1000"
    proof
      fix x assume "x \<in> set xs"
      with range have "\<bar>x\<bar> \<le> 2 ^ 500" by auto
      then show "x * x \<le> 2 ^ 1000" by (rule square_le)
    qed
    from sum_squares_le[OF this] have "S \<le> real n * 2 ^ 1000" by (simp add: S_def n_def)
    moreover have "real n \<le> 2 ^ 20"
      using len by (metis n_def of_nat_le_iff of_nat_numeral of_nat_power)
    then have "real n * 2 ^ 1000 \<le> 2 ^ 20 * 2 ^ 1000" by (intro mult_right_mono) simp_all
    moreover have "(2::real) ^ 20 * 2 ^ 1000 \<le> 2 ^ 1020" by simp
    ultimately show ?thesis by linarith
  qed
  have S_lo: "1 / 2 ^ 1000 \<le> S"
  proof -
    from nonzero obtain x where x: "x \<in> set xs" "x \<noteq> 0" by blast
    with range have "1 / 2 ^ 500 \<le> \<bar>x\<bar>" by blast
    then have "1 / 2 ^ 1000 \<le> x * x" by (rule square_ge)
    also from x(1) have "x * x \<le> S" unfolding S_def by (rule sum_squares_ge)
    finally show ?thesis .
  qed
  have S_pos: "0 < S"
  proof -
    have "(0::real) < 1 / 2 ^ 1000" by simp
    then show ?thesis using S_lo by (rule less_le_trans)
  qed
  from fold_squares[OF range, of 0 1 0 1, folded a_def b_def n_def S_def] an_half bn2 S_hi
  obtain s' where s': "foldl (\<lambda>sum val. js_plus sum (js_times val val)) (Num 0) xs = Num s'"
    "S * a ^ (2 * n) \<le> s'" "s' \<le> S * b ^ (2 * n)" by auto
  have s'_lo: "1 / 2 ^ 1001 \<le> s'"
  proof -
    have "(1 / 2 ^ 1000) * (1 / 2) \<le> S * a ^ (2 * n)"
      using S_lo an_half by (intro mult_mono) simp_all
    with s'(2) show ?thesis by simp
  qed
  have s'_hi: "s' \<le> 2 ^ 1021"
  proof -
    have "S * b ^ (2 * n) \<le> 2 ^ 1020 * 2" using S_hi bn2 S_pos by (intro mult_mono) simp_all
    with s'(3) show ?thesis by simp
  qed
  have s'_nn: "0 \<le> s'"
  proof -
    have "(0::real) \<le> 1 / 2 ^ 1001" by simp
    then show ?thesis using s'_lo by (rule order_trans)
  qed
  define r where "r = sqrt s'"
  have r_lo: "1 / 2 ^ 501 \<le> r"
  proof -
    have "((1::real) / 2 ^ 501)\<^sup>2 \<le> 1 / 2 ^ 1001" by (simp add: power2_eq_square)
    with s'_lo have "(1 / 2 ^ 501)\<^sup>2 \<le> s'" by linarith
    then show ?thesis unfolding r_def by (rule real_le_rsqrt)
  qed
  have r_hi: "r \<le> 2 ^ 511"
  proof -
    have "(2::real) ^ 1021 \<le> (2 ^ 511)\<^sup>2" by (simp add: power2_eq_square)
    with s'_hi have "s' \<le> (2 ^ 511)\<^sup>2" by linarith
    then show ?thesis unfolding r_def by (intro real_le_lsqrt) simp_all
  qed
  have r_nn: "0 \<le> r" unfolding r_def using s'_nn by simp
  have rr: "r * r = s'" unfolding r_def using s'_nn by simp
  have r1: "r = 0 \<or> 1 / 2 ^ 1022 \<le> r"
  proof -
    have "(1::real) / 2 ^ 1022 \<le> 1 / 2 ^ 501" by simp
    with r_lo show ?thesis by linarith
  qed
  have r2: "r \<le> 2 ^ 1023"
  proof -
    have "(2::real) ^ 511 \<le> 2 ^ 1023" by simp
    with r_hi show ?thesis by linarith
  qed
  from fl_rel[OF r_nn r1 r2, folded a_def b_def] obtain N
    where N: "fl r = Num N" "r * a \<le> N" "N \<le> r * b" by blast
  have norm: "Math_sqrt (Num s') = Num N"
    using N(1) s'_nn by (simp add: Math_sqrt_def r_def)
  have N_lo: "1 / 2 ^ 502 \<le> N"
  proof -
    have "(1 / 2 ^ 501) * (1 / 2) \<le> r * a" using r_lo a by (intro mult_mono) simp_all
    with N(2) show ?thesis by simp
  qed
  have N_hi: "N \<le> 2 ^ 512"
  proof -
    have "r * b \<le> 2 ^ 511 * 2" using r_hi b r_nn by (intro mult_mono) simp_all
    with N(3) show ?thesis by simp
  qed
  have N_pos: "0 < N"
  proof -
    have "(0::real) < 1 / 2 ^ 502" by simp
    then show ?thesis using N_lo by (rule less_le_trans)
  qed
  from quotients[OF range N_lo N_hi, folded a_def b_def S_def] obtain ys
    where ys: "map (\<lambda>val. js_div val (Num N)) xs = map Num ys"
      "S / (N * N) * a\<^sup>2 \<le> (\<Sum>y\<leftarrow>ys. y * y)"
      "(\<Sum>y\<leftarrow>ys. y * y) \<le> S / (N * N) * b\<^sup>2" by blast
  have out: "l2_normalize xs = map Num ys"
    using s'(1) norm ys(1) by (simp add: l2_normalize_def)
  define T where "T = (\<Sum>y\<leftarrow>ys. y * y)"
  have T_nn: "0 \<le> T" unfolding T_def by (rule sum_squares_nonneg)
  have NN_lo: "S * a ^ (2 * n) * a\<^sup>2 \<le> N * N"
  proof -
    have ra: "0 \<le> r * a" using r_nn a by simp
    have "r * a * (r * a) \<le> N * N" using N(2) ra N_pos by (intro mult_mono) simp_all
    then have "s' * a\<^sup>2 \<le> N * N" by (simp add: rr[symmetric] power2_eq_square algebra_simps)
    moreover have "S * a ^ (2 * n) * a\<^sup>2 \<le> s' * a\<^sup>2"
      using s'(2) by (intro mult_right_mono) simp_all
    ultimately show ?thesis by linarith
  qed
  have NN_hi: "N * N \<le> S * b ^ (2 * n) * b\<^sup>2"
  proof -
    have "N * N \<le> r * b * (r * b)" using N(3) N_pos by (intro mult_mono) simp_all
    then have "N * N \<le> s' * b\<^sup>2" by (simp add: rr[symmetric] power2_eq_square algebra_simps)
    moreover have "s' * b\<^sup>2 \<le> S * b ^ (2 * n) * b\<^sup>2"
      using s'(3) by (intro mult_right_mono) simp_all
    ultimately show ?thesis by linarith
  qed
  have ak: "a ^ (2 * n + 4) = a ^ (2 * n) * a\<^sup>2 * a\<^sup>2"
    and bk: "b ^ (2 * n + 4) = b ^ (2 * n) * b\<^sup>2 * b\<^sup>2"
    by (simp_all add: power_add power2_eq_square power4_eq_xxxx)
  have a2: "0 < a\<^sup>2" and b2: "0 < b\<^sup>2" using a b by simp_all
  have bn: "0 < b ^ (2 * n)" using b by simp
  have NN_pos: "0 < N * N" using N_pos by simp
  have upper: "T \<le> 1 + real (4 * n + 8) * unit_roundoff"
  proof -
    have lo_pos: "0 < S * a ^ (2 * n) * a\<^sup>2" using S_pos an a2 by simp
    have "S / (N * N) \<le> S / (S * a ^ (2 * n) * a\<^sup>2)"
      using NN_lo S_pos lo_pos NN_pos by (intro divide_left_mono) simp_all
    also have "\<dots> = 1 / (a ^ (2 * n) * a\<^sup>2)" using S_pos by simp
    finally have "S / (N * N) * b\<^sup>2 \<le> 1 / (a ^ (2 * n) * a\<^sup>2) * b\<^sup>2"
      using b2 by (intro mult_right_mono) simp_all
    moreover have "b\<^sup>2 \<le> 1 / a\<^sup>2"
    proof -
      have "real 2 * unit_roundoff \<le> 1 / 2" by (simp add: unit_roundoff_def)
      from roundoff_powers(2)[OF this, folded a_def b_def] show ?thesis .
    qed
    then have "1 / (a ^ (2 * n) * a\<^sup>2) * b\<^sup>2 \<le> 1 / (a ^ (2 * n) * a\<^sup>2) * (1 / a\<^sup>2)"
      using an a2 by (intro mult_left_mono) simp_all
    moreover have "1 / (a ^ (2 * n) * a\<^sup>2) * (1 / a\<^sup>2) = 1 / a ^ (2 * n + 4)"
      unfolding ak by simp
    moreover have "1 / a ^ (2 * n + 4) \<le> 1 + 2 * (real (2 * n + 4) * unit_roundoff)"
      by (rule pw4(3))
    moreover have "2 * (real (2 * n + 4) * unit_roundoff) = real (4 * n + 8) * unit_roundoff"
      by simp
    ultimately show ?thesis using ys(3) unfolding T_def by linarith
  qed
  have lower: "1 - real (4 * n + 8) * unit_roundoff \<le> T"
  proof -
    have hi_pos: "0 < S * b ^ (2 * n) * b\<^sup>2" using S_pos bn b2 by simp
    have "S / (S * b ^ (2 * n) * b\<^sup>2) \<le> S / (N * N)"
      using NN_hi S_pos hi_pos NN_pos by (intro divide_left_mono) simp_all
    moreover have "S / (S * b ^ (2 * n) * b\<^sup>2) = 1 / (b ^ (2 * n) * b\<^sup>2)" using S_pos by simp
    ultimately have "1 / (b ^ (2 * n) * b\<^sup>2) * a\<^sup>2 \<le> S / (N * N) * a\<^sup>2"
      using a2 by (intro mult_right_mono) simp_all
    moreover have "a ^ (2 * n) * a\<^sup>2 \<le> 1 / (b ^ (2 * n) * b\<^sup>2)"
    proof -
      have "real (2 * n + 2) \<le> real (2 * n + 4)" by simp
      then have "real (2 * n + 2) * unit_roundoff \<le> real (2 * n + 4) * unit_roundoff"
        using u_pos by (intro mult_right_mono) simp_all
      with cnt(1) have "real (2 * n + 2) * unit_roundoff \<le> 1 / 2" by linarith
      from roundoff_powers(2)[OF this, folded a_def b_def]
      have "b ^ (2 * n + 2) \<le> 1 / a ^ (2 * n + 2)" .
      moreover have "0 < a ^ (2 * n + 2)" "0 < b ^ (2 * n + 2)" using a b by simp_all
      ultimately have "a ^ (2 * n + 2) \<le> 1 / b ^ (2 * n + 2)" by (simp add: field_simps)
      then show ?thesis by (simp add: power_add power2_eq_square mult.commute)
    qed
    then have "a ^ (2 * n) * a\<^sup>2 * a\<^sup>2 \<le> 1 / (b ^ (2 * n) * b\<^sup>2) * a\<^sup>2"
      using a2 by (intro mult_right_mono) simp_all
    moreover have "1 - real (2 * n + 4) * unit_roundoff \<le> a ^ (2 * n + 4)" by (rule pw4(1))
    moreover have "real (2 * n + 4) * unit_roundoff \<le> real (4 * n + 8) * unit_roundoff"
      using u_pos by (intro mult_right_mono) simp_all
    ultimately show ?thesis using ys(2) unfolding T_def ak by linarith
  qed
  from upper lower have "\<bar>T - 1\<bar> \<le> real (4 * n + 8) * unit_roundoff" by linarith
  with sqrt_near_one[OF T_nn] have near: "\<bar>sqrt T - 1\<bar> \<le> real (4 * n + 8) * unit_roundoff"
    by linarith
  have comp: "map (\<lambda>x. fl (x / N)) xs = map Num ys"
    using ys(1) N_pos by (simp add: js_div_def)
  have tau: "real (2 * n + 4) * unit_roundoff \<le> real (4 * n + 8) * unit_roundoff"
    "2 * (real (2 * n + 4) * unit_roundoff) = real (4 * n + 8) * unit_roundoff"
    using u_pos by (simp_all add: mult_right_mono)
  have N_lower: "S * (1 - real (4 * n + 8) * unit_roundoff) \<le> N * N"
  proof -
    have "1 - real (4 * n + 8) * unit_roundoff \<le> a ^ (2 * n + 4)" using pw4(1) tau(1) by linarith
    also have "a ^ (2 * n + 4) \<le> a ^ (2 * n) * a\<^sup>2"
    proof -
      have "a ^ (2 * n) * a\<^sup>2 * a\<^sup>2 \<le> a ^ (2 * n) * a\<^sup>2"
        using an a2 a by (intro mult_left_le) (simp_all add: power_le_one)
      then show ?thesis unfolding ak .
    qed
    finally have "S * (1 - real (4 * n + 8) * unit_roundoff) \<le> S * (a ^ (2 * n) * a\<^sup>2)"
      using S_pos by (intro mult_left_mono) simp_all
    with NN_lo show ?thesis by (simp add: mult.assoc)
  qed
  have N_upper: "N * N \<le> S * (1 + real (4 * n + 8) * unit_roundoff)"
  proof -
    have "b ^ (2 * n) * b\<^sup>2 * 1 \<le> b ^ (2 * n) * b\<^sup>2 * b\<^sup>2"
      using bn b2 b by (intro mult_left_mono) simp_all
    then have "b ^ (2 * n) * b\<^sup>2 \<le> b ^ (2 * n + 4)" unfolding bk by simp
    also have "\<dots> \<le> 1 / a ^ (2 * n + 4)" by (rule pw4(2))
    also have "\<dots> \<le> 1 + real (4 * n + 8) * unit_roundoff" using pw4(3) tau(2) by linarith
    finally have "S * (b ^ (2 * n) * b\<^sup>2) \<le> S * (1 + real (4 * n + 8) * unit_roundoff)"
      using S_pos by (intro mult_left_mono) simp_all
    with NN_hi show ?thesis by (simp add: mult.assoc)
  qed
  from out N_pos comp N_lower N_upper near show ?thesis
    unfolding T_def n_def S_def by blast
qed

lemma round_even_int: "round_even (of_int m) = m"
  by (simp add: round_even_def)

lemma floor_log2_eq:
  assumes "2 powi k \<le> x" and "x < 2 powi (k + 1)"
  shows "\<lfloor>log 2 x\<rfloor> = k"
proof -
  have pos: "0 < x" using assms(1) zero_less_power_int[of "2::real" k] by linarith
  have "2 powr (of_int k) = (2::real) powi k" by (rule powr_real_of_int') simp_all
  moreover have "2 powr (of_int k + 1) = (2::real) powi (k + 1)"
    using powr_real_of_int'[of 2 "k + 1"] by simp
  ultimately have "2 powr (of_int k) \<le> x \<and> x < 2 powr (of_int k + 1)" using assms by simp
  with pos show ?thesis by (subst floor_log_eq_powr_iff) simp_all
qed

lemma fl_binade:
  assumes "2 powi k \<le> \<bar>x\<bar>" and "\<bar>x\<bar> < 2 powi (k + 1)" and "- 1022 \<le> k"
  shows "fl x =
     (let y = of_int (round_even (x / 2 powi (k - 52))) * 2 powi (k - 52)
      in if \<bar>y\<bar> \<ge> 2 ^ 1024 then (if 0 < x then PosInfinity else NegInfinity) else Num y)"
proof -
  have "0 < \<bar>x\<bar>" using assms(1) zero_less_power_int[of "2::real" k] by linarith
  then have nz: "x \<noteq> 0" by simp
  from floor_log2_eq[OF assms(1,2)] assms(3) have "ulp_exponent x = k - 52"
    by (simp add: ulp_exponent_def)
  with nz show ?thesis by (simp add: fl_def)
qed

lemma fl_one: "fl 1 = Num 1"
  using fl_binade[of 0 1] by (simp add: round_even_def)

lemma l2_normalize_one: "l2_normalize [1] = [Num 1]"
  by (simp add: l2_normalize_def js_times_def js_plus_def Math_sqrt_def js_div_def fl_one fl_zero)

lemma l2_normalize_zeros: "l2_normalize [0, 0] = [NaN, NaN]"
  by (simp add: l2_normalize_def js_times_def js_plus_def Math_sqrt_def js_div_def fl_zero)

lemma fl_9: "fl 9 = Num 9"
  using fl_binade[of 3 9] by (simp add: round_even_def)

lemma fl_16: "fl 16 = Num 16"
  using fl_binade[of 4 16] by (simp add: round_even_def)

lemma fl_25: "fl 25 = Num 25"
  using fl_binade[of 4 25] by (simp add: round_even_def)

lemma fl_5: "fl 5 = Num 5"
  using fl_binade[of 2 5] by (simp add: round_even_def)

lemma fl_three_fifths: "fl (3 / 5) = Num (5404319552844595 / 2 ^ 53)"
  using fl_binade[of "- 1" "3 / 5"] by (simp add: round_even_def)

lemma fl_four_fifths: "fl (4 / 5) = Num (7205759403792794 / 2 ^ 53)"
  using fl_binade[of "- 1" "4 / 5"] by (simp add: round_even_def)

lemma sqrt_25: "sqrt 25 = 5"
  by (rule real_sqrt_unique) simp_all

lemma l2_normalize_3_4:
  "l2_normalize [3, 4] = [Num (5404319552844595 / 2 ^ 53), Num (7205759403792794 / 2 ^ 53)]"
  by (simp add: l2_normalize_def js_times_def js_plus_def Math_sqrt_def js_div_def fl_zero
      fl_9 fl_16 fl_25 fl_5 sqrt_25 fl_three_fifths fl_four_fifths)

lemma l2_normalize_huge: "l2_normalize [2 ^ 600, 2 ^ 600] = [Num 0, Num 0]"
proof -
  have t: "js_times (2 ^ 600) (2 ^ 600) = PosInfinity"
    using fl_binade[of 1200 "2 ^ 600 * 2 ^ 600"] by (simp add: js_times_def round_even_def)
  have p1: "js_plus (Num 0) PosInfinity = PosInfinity"
    and p2: "js_plus PosInfinity PosInfinity = PosInfinity"
    by (simp_all add: js_plus_def)
  have s: "Math_sqrt PosInfinity = PosInfinity" by (simp add: Math_sqrt_def)
  have d: "js_div (2 ^ 600) PosInfinity = Num 0" by (simp add: js_div_def)
  show ?thesis
    unfolding l2_normalize_def by (simp only: foldl.simps t p1 p2 s d Let_def list.map)
qed

lemma fl_subnormal:
  assumes "x \<noteq> 0" and "\<bar>x\<bar> < 2 powi (- 1022)"
  shows "fl x =
     (let y = of_int (round_even (x / 2 powi (- 1074))) * 2 powi (- 1074)
      in if \<bar>y\<bar> \<ge> 2 ^ 1024 then (if 0 < x then PosInfinity else NegInfinity) else Num y)"
proof -
  have pos: "0 < \<bar>x\<bar>" using assms(1) by simp
  have "(2::real) powi \<lfloor>log 2 \<bar>x\<bar>\<rfloor> < 2 powi (- 1022)"
    using floor_log2_bounds(1)[OF pos] assms(2) by linarith
  then have "\<lfloor>log 2 \<bar>x\<bar>\<rfloor> < - 1022"
    by (metis linorder_not_less one_le_numeral power_int_increasing)
  then have "ulp_exponent x = - 1074" by (simp add: ulp_exponent_def)
  with assms(1) show ?thesis by (simp add: fl_def)
qed

lemma l2_normalize_tiny: "l2_normalize [1 / 2 ^ 600] = [PosInfinity]"
proof -
  have t: "js_times (1 / 2 ^ 600) (1 / 2 ^ 600) = Num 0"
    using fl_subnormal[of "1 / 2 ^ 600 * (1 / 2 ^ 600)"] by (simp add: js_times_def round_even_def)
  have p: "js_plus (Num 0) (Num 0) = Num 0" by (simp add: js_plus_def fl_zero)
  have s: "Math_sqrt (Num 0) = Num 0" by (simp add: Math_sqrt_def fl_zero)
  have d: "js_div (1 / 2 ^ 600) (Num 0) = PosInfinity" by (simp add: js_div_def)
  show ?thesis
    unfolding l2_normalize_def by (simp only: foldl.simps t p s d Let_def list.map)
qed

section \<open>Lemmas on rerankMatches\<close>

lemma matchDescriptions_Some_D:
  "matchDescriptions i ms = Some ds \<Longrightarrow> m \<in> set ms \<Longrightarrow> attendee m \<noteq> None"
  by (induction ms arbitrary: i ds) (auto split: option.splits)

lemma matchDescriptions_Some_I:
  "\<forall>m\<in>set ms. attendee m \<noteq> None \<Longrightarrow> \<exists>ds. matchDescriptions i ms = Some ds"
proof (induction ms arbitrary: i)
  case Nil
  then show ?case by simp
next
  case (Cons m ms)
  then obtain a where a: "attendee m = Some a" by auto
  from Cons obtain ds where "matchDescriptions (Suc i) ms = Some ds" by fastforce
  with a show ?case by simp
qed

lemma rerankMatches_trace:
  "rerankMatches w q qt ms k tr = (res, tr') \<Longrightarrow>
     tr' = tr \<or> (\<exists>ds. matchDescriptions 0 ms = Some ds \<and> tr' = RerankCall q qt ds k # tr)"
  by (auto simp: rerankMatches_def Let_def split: option.splits gen_response.splits)




text \<open>An element whose key is an index converts to that index as a number.\<close>

lemma dropWhile_hd: "s \<noteq> [] \<Longrightarrow> \<not> P (hd s) \<Longrightarrow> dropWhile P s = s"
  by (cases s) simp_all

lemma digit_not_space: "is_digit c \<Longrightarrow> \<not> is_js_space c"
  by (auto simp: is_digit_def is_js_space_def Let_def)

lemma trim_digits:
  assumes "s \<noteq> []" "list_all is_digit s"
  shows "trim s = s"
proof -
  from assms have "is_digit (hd s)" "is_digit (last s)" by (auto simp: list_all_iff)
  then have h: "\<not> is_js_space (hd s)" and l: "\<not> is_js_space (last s)"
    by (simp_all add: digit_not_space)
  from assms(1) h have 1: "dropWhile is_js_space s = s" by (rule dropWhile_hd)
  from assms(1) l have "dropWhile is_js_space (rev s) = rev s"
    by (intro dropWhile_hd) (simp_all add: hd_rev)
  with 1 show ?thesis by (simp add: trim_def)
qed

lemma takeWhile_all: "list_all P s \<Longrightarrow> takeWhile P s = s"
  by (induction s) simp_all

lemma dropWhile_all: "list_all P s \<Longrightarrow> dropWhile P s = []"
  by (induction s) simp_all

lemma digit_chars:
  assumes "is_digit c"
  shows "c \<noteq> CHR ''+''" "c \<noteq> CHR ''-''" "c \<noteq> CHR ''I''" "c \<noteq> CHR ''x''" "c \<noteq> CHR ''X''"
    "c \<noteq> CHR ''o''" "c \<noteq> CHR ''O''" "c \<noteq> CHR ''b''" "c \<noteq> CHR ''B''"
  using assms by (auto simp: is_digit_def Let_def)

lemma unsigned_decimal_digits:
  assumes "s \<noteq> []" "list_all is_digit s"
  shows "unsigned_decimal s = Num (real (digits_value 10 s))"
proof -
  from assms have "is_digit (hd s)" by (auto simp: list_all_iff)
  with assms(1) have "s \<noteq> ''Infinity''" by (auto dest: digit_chars(3))
  then show ?thesis
    using assms by (simp add: unsigned_decimal_def takeWhile_all dropWhile_all exponent_part_def
        digits_value_def)
qed

lemma str_decimal_digits:
  assumes "s \<noteq> []" "list_all is_digit s"
  shows "str_decimal s = Num (real (digits_value 10 s))"
proof -
  from assms obtain c r where s: "s = c # r" "is_digit c" by (cases s) auto
  then have "c \<noteq> CHR ''+''" "c \<noteq> CHR ''-''" by (auto dest: digit_chars)
  with s unsigned_decimal_digits[OF assms] show ?thesis by (simp add: str_decimal_def)
qed

lemma radix_prefix_digits: "list_all is_digit s \<Longrightarrow> radix_prefix s = None"
  by (auto simp: radix_prefix_def split: list.splits dest: digit_chars)

lemma StringToNumber_digits:
  assumes "s \<noteq> []" "list_all is_digit s"
  shows "StringToNumber s = Num (real (digits_value 10 s))"
  using assms by (simp add: StringToNumber_def trim_digits radix_prefix_digits str_decimal_digits)

lemmas coercion_defs =
  StringToNumber_def trim_def is_js_space_def radix_prefix_def str_decimal_def
  unsigned_decimal_def is_digit_def digits_def digits_value_def digit_of_def exponent_part_def
  signed_integer_def negate_def canonical_index_def js_less_def js_greater_eq_def Let_def

lemma canonical_index_number:
  assumes "canonical_index s = Some k"
  shows "StringToNumber s = Num (real k)"
proof (cases "s = ''0''")
  case True
  with assms have "k = 0" by (simp add: canonical_index_def)
  moreover have "StringToNumber ''0'' = Num 0" by (simp add: coercion_defs)
  ultimately show ?thesis using True by simp
next
  case False
  with assms have "s \<noteq> []" "list_all is_digit s" "k = digits_value 10 s"
    by (auto simp: canonical_index_def split: if_splits)
  then show ?thesis by (simp add: StringToNumber_digits)
qed

lemma array_index_number: "array_index e = Some k \<Longrightarrow> ToNumber e = Num (real k)"
proof (induction e rule: array_index.induct)
  case (1 r)
  then show ?case by (auto split: if_splits)
next
  case (2 s)
  then show ?case by (simp add: canonical_index_number)
next
  case (3 x)
  then show ?case by (cases x) auto
qed simp_all

lemma index_passes_bounds:
  assumes "array_index e = Some k" "k < length ms"
  shows "\<not> (js_less (ToNumber e) 0 \<or> js_greater_eq (ToNumber e) (real (length ms)))"
  using array_index_number[OF assms(1)] assms(2) by (simp add: js_less_def js_greater_eq_def)


lemma finalResults_step:
  "finalResults ms (e # es)
     = (if valid_index ms e then result_of ms e # finalResults ms es else finalResults ms es)"
proof (cases "array_index e")
  case None
  then show ?thesis by (simp add: element_at_def valid_index_def)
next
  case (Some k)
  show ?thesis
  proof (cases "k < length ms")
    case True
    from index_passes_bounds[OF Some True] Some True show ?thesis
      by (auto simp: element_at_def valid_index_def result_of_def result_at_def split: option.splits)
  next
    case False
    with Some show ?thesis by (simp add: element_at_def valid_index_def)
  qed
qed

lemma finalResults_map_filter:
  "finalResults ms idxs = map (result_of ms) (filter (valid_index ms) idxs)"
  by (induction idxs) (simp_all add: finalResults_step del: finalResults.simps(2))






lemma backtick_not_space: "\<not> is_js_space (CHR 0x60)"
  by (simp add: is_js_space_def)

lemma dropWhile_spaces_append:
  "\<forall>c\<in>set pre. is_js_space c \<Longrightarrow> \<not> is_js_space x \<Longrightarrow>
     dropWhile is_js_space (pre @ x # xs) = x # xs"
  by (induction pre) auto

lemma trim_core:
  assumes "\<forall>c\<in>set pre. is_js_space c" "\<forall>c\<in>set post. is_js_space c"
    and "\<not> is_js_space x" "\<not> is_js_space y"
  shows "trim (pre @ x # mid @ y # post) = x # mid @ [y]"
proof -
  have "dropWhile is_js_space (pre @ x # mid @ y # post) = x # mid @ y # post"
    using assms by (simp add: dropWhile_spaces_append)
  moreover have "rev (x # mid @ y # post) = rev post @ y # rev mid @ [x]" by simp
  moreover have "dropWhile is_js_space (rev post @ y # rev mid @ [x]) = y # rev mid @ [x]"
    using assms by (simp add: dropWhile_spaces_append)
  ultimately show ?thesis by (simp add: trim_def)
qed

lemma trim_fenced:
  assumes "\<forall>c\<in>set pre. is_js_space c"
  shows "\<exists>rest'. trim (pre @ fence @ inner @ fence @ rest) = fence @ inner @ fence @ rest'"
proof -
  let ?b = "CHR 0x60"
  have d: "dropWhile is_js_space (pre @ fence @ inner @ fence @ rest) = fence @ inner @ fence @ rest"
    using assms dropWhile_spaces_append[of pre ?b] backtick_not_space by (simp add: fence_def)
  have r: "rev (fence @ inner @ fence @ rest) = rev rest @ ?b # (?b # ?b # rev inner @ rev fence)"
    by (simp add: fence_def)
  have "\<exists>z. dropWhile is_js_space (rev rest @ ?b # (?b # ?b # rev inner @ rev fence))
          = z @ ?b # (?b # ?b # rev inner @ rev fence)"
  proof (cases "\<forall>c\<in>set (rev rest). is_js_space c")
    case True
    then have "dropWhile is_js_space (rev rest @ ?b # (?b # ?b # rev inner @ rev fence))
          = [] @ ?b # (?b # ?b # rev inner @ rev fence)"
      using dropWhile_spaces_append[of "rev rest" ?b] backtick_not_space by simp
    then show ?thesis by blast
  next
    case False
    then obtain c where "c \<in> set (rev rest)" "\<not> is_js_space c" by blast
    then have "dropWhile is_js_space (rev rest @ ?b # (?b # ?b # rev inner @ rev fence))
          = dropWhile is_js_space (rev rest) @ ?b # (?b # ?b # rev inner @ rev fence)"
      by (rule dropWhile_append1)
    then show ?thesis by blast
  qed
  then obtain z where "dropWhile is_js_space (rev rest @ ?b # (?b # ?b # rev inner @ rev fence))
          = z @ ?b # (?b # ?b # rev inner @ rev fence)" ..
  then have "trim (pre @ fence @ inner @ fence @ rest) = fence @ inner @ fence @ rev z"
    unfolding trim_def d r by (simp add: fence_def)
  then show ?thesis by blast
qed

lemma split_on_no_backtick:
  "CHR 0x60 \<notin> set inner \<Longrightarrow>
     split_on fence cur (inner @ fence @ rest) = (rev cur @ inner) # split_on fence [] rest"
proof (induction inner arbitrary: cur)
  case Nil
  then show ?case by (simp add: fence_def startsWith_def)
next
  case (Cons c cs)
  then have "\<not> startsWith (c # cs @ fence @ rest) fence"
    by (auto simp: startsWith_def fence_def)
  with Cons show ?case by simp
qed

lemma split_fenced:
  "CHR 0x60 \<notin> set inner \<Longrightarrow>
     split (fence @ inner @ fence @ rest) fence = [] # inner # split_on fence [] rest"
  using split_on_no_backtick[of "[]" "[]" "inner @ fence @ rest"] split_on_no_backtick[of inner "[]" rest]
  by (simp add: split_def)

lemma split_on_nonempty: "split_on sep cur s \<noteq> []"
  by (induction sep cur s rule: split_on.induct) auto

lemma finalResults_valid:
  "r \<in> set (finalResults ms idxs) \<Longrightarrow> \<exists>e\<in>set idxs. valid_index ms e \<and> r = result_of ms e"
  by (auto simp: finalResults_map_filter)

lemma valid_index_D:
  assumes "valid_index ms e"
  obtains k where "array_index e = Some k" "k < length ms" "attendee (ms ! k) \<noteq> None"
    "result_of ms e = result_at ms k"
  using assms by (auto simp: valid_index_def result_of_def split: option.splits)


lemma ex_clean2: "clean_result_text ''[0, 0]'' = Inr ''[0, 0]''"
  by (simp add: clean_result_text_def trim_def is_js_space_def startsWith_def fence_def)

lemma bracket_not_space: "\<not> is_js_space CHR ''[''" "\<not> is_js_space CHR '']''"
  by (simp_all add: is_js_space_def)

lemma trim_array_text:
  assumes "\<forall>c\<in>set ws1. is_js_space c" "\<forall>c\<in>set ws2. is_js_space c"
  shows "trim (ws1 @ ''['' @ mid @ '']'' @ ws2) = ''['' @ mid @ '']''"
  using trim_core[OF assms bracket_not_space, of mid] by simp

lemma clean_unfenced_array: "clean_result_text (''['' @ mid @ '']'') = Inr (''['' @ mid @ '']'')"
proof -
  have "trim (''['' @ mid @ '']'') = ''['' @ mid @ '']''"
    using trim_array_text[of "[]" "[]" mid] by simp
  moreover have "\<not> startsWith (''['' @ mid @ '']'') fence"
    by (simp add: startsWith_def fence_def)
  ultimately show ?thesis by (simp add: clean_result_text_def)
qed

lemma strip_tag:
  assumes "\<forall>c\<in>set ws1. is_js_space c" "tag = [] \<or> tag = ''json''"
  shows "(if startsWith (tag @ ws1 @ ''['' @ mid @ '']'' @ ws2) ''json''
          then drop 4 (tag @ ws1 @ ''['' @ mid @ '']'' @ ws2)
          else tag @ ws1 @ ''['' @ mid @ '']'' @ ws2) = ws1 @ ''['' @ mid @ '']'' @ ws2"
proof (cases "tag = []")
  case True
  have "\<not> startsWith (ws1 @ ''['' @ mid @ '']'' @ ws2) ''json''"
  proof (cases ws1)
    case Nil
    then show ?thesis by (simp add: startsWith_def)
  next
    case (Cons c cs)
    with assms(1) have "is_js_space c" by simp
    then have "c \<noteq> CHR ''j''" by (auto simp: is_js_space_def)
    with Cons show ?thesis by (simp add: startsWith_def)
  qed
  with True show ?thesis by simp
next
  case False
  with assms(2) have "tag = ''json''" by simp
  then show ?thesis by (simp add: startsWith_def)
qed



section \<open>Claims on rerankMatches\<close>




text \<open>
  A candidate without its attendee does not reach the validation loop: the call throws
  while it builds the descriptions, and the service is not asked.
\<close>

theorem rerankMatches_missing_attendee_throws:
  assumes "m \<in> set matches" and "attendee m = None"
  shows "rerankMatches w query queryType matches topK tr = (Inl TypeError, tr)"
proof (cases "matchDescriptions 0 matches")
  case None
  then show ?thesis by (simp add: rerankMatches_def)
next
  case (Some ds)
  from matchDescriptions_Some_D[OF Some assms(1)] assms(2) show ?thesis by simp
qed

theorem rerankMatches_missing_attendee_throws_witness:
  "rerankMatches (ex_world ''[0]'') ''q'' Request [ex_candidate\<lparr>attendee := None\<rparr>] 25 []
     = (Inl TypeError, [])"
  using rerankMatches_missing_attendee_throws[of "ex_candidate\<lparr>attendee := None\<rparr>"
      "[ex_candidate\<lparr>attendee := None\<rparr>]" "ex_world ''[0]''" "''q''" Request 25 "[]"]
  by simp



text \<open>
  C9. An answer that is a JSON array inside a markdown code fence, with or without the
  tag \<open>json\<close> and with any white space around, is read as the array alone: the cleaned
  text is the array's text, and the selection is the one of the unfenced answer.
\<close>

theorem fenced_array_is_unwrapped:
  assumes "\<forall>c\<in>set pre. is_js_space c" "\<forall>c\<in>set ws1. is_js_space c"
    and "\<forall>c\<in>set ws2. is_js_space c"
    and "CHR 0x60 \<notin> set mid"
    and "tag = [] \<or> tag = ''json''"
  shows "clean_result_text (pre @ fence @ tag @ ws1 @ ''['' @ mid @ '']'' @ ws2 @ fence @ rest)
           = Inr (''['' @ mid @ '']'')
       \<and> select_results w matches topK
             (pre @ fence @ tag @ ws1 @ ''['' @ mid @ '']'' @ ws2 @ fence @ rest)
           = select_results w matches topK (''['' @ mid @ '']'')"
proof -
  let ?inner = "tag @ ws1 @ ''['' @ mid @ '']'' @ ws2"
  let ?t = "pre @ fence @ ?inner @ fence @ rest"
  have nb: "CHR 0x60 \<notin> set ?inner"
    using assms(2-5) backtick_not_space by auto
  from trim_fenced[OF assms(1), of ?inner rest]
  obtain rest' where tr: "trim ?t = fence @ ?inner @ fence @ rest'" ..
  have sw: "startsWith (fence @ ?inner @ fence @ rest') fence"
    by (simp add: startsWith_def)
  have sp: "split (fence @ ?inner @ fence @ rest') fence = [] # ?inner # split_on fence [] rest'"
    using nb by (rule split_fenced)
  have "clean_result_text ?t
      = Inr (trim (if startsWith ?inner ''json'' then drop 4 ?inner else ?inner))"
    unfolding clean_result_text_def Let_def tr using sw sp by simp
  also have "\<dots> = Inr (trim (ws1 @ ''['' @ mid @ '']'' @ ws2))"
    using strip_tag[OF assms(2,5), of mid ws2] by simp
  also have "\<dots> = Inr (''['' @ mid @ '']'')"
    using trim_array_text[OF assms(2,3), of mid] by simp
  finally have c: "clean_result_text ?t = Inr (''['' @ mid @ '']'')" .
  have "select_results w matches topK ?t = select_results w matches topK (''['' @ mid @ '']'')"
    unfolding select_results_def c clean_unfenced_array ..
  with c show ?thesis by simp
qed

theorem fenced_array_is_unwrapped_witness:
  "clean_result_text ex_fenced = Inr ''[0, 0]''
   \<and> select_results (ex_world ex_fenced) [ex_candidate] 25 ex_fenced
       = Inr [result_at [ex_candidate] 0, result_at [ex_candidate] 0]"
proof -
  have sp: "\<forall>c\<in>set [CHR 0x0A]. is_js_space c" by (simp add: is_js_space_def)
  have nb: "CHR 0x60 \<notin> set ''0, 0''" by simp
  have u: "select_results (ex_world ex_fenced) [ex_candidate] 25 ''[0, 0]''
       = Inr [result_at [ex_candidate] 0, result_at [ex_candidate] 0]"
    using ex_clean2
    by (simp add: select_results_def ex_world_def ex_generate_def ex_parse_def slice0_def
        ex_candidate_def element_at_def result_at_def js_less_def js_greater_eq_def)
  from fenced_array_is_unwrapped[of "[]" "[CHR 0x0A]" "[CHR 0x0A]" "''0, 0''" "''json''"
      "[]" "ex_world ex_fenced" "[ex_candidate]" 25] sp nb u
  show ?thesis by (simp add: ex_fenced_def)
qed

section \<open>Lemmas on the vector search\<close>

lemma map_filter_with_distance:
  "rd \<in> set (List.map_filter (with_distance w q) rows) \<Longrightarrow>
     \<exists>e. fst rd \<in> set rows \<and> col_embedding (fst rd) = Some e \<and> snd rd = cosine_distance w e q"
  by (auto simp: List.map_filter_def with_distance_def split: option.splits)

lemma match_rows_member:
  assumes "match_rows w rows q threshold k ex = Inr rs" and "r \<in> set rs"
  shows "\<exists>row e. row \<in> set rows \<and> col_embedding row = Some e
           \<and> r = to_match_row (row, cosine_distance w e q)
           \<and> \<not> excluded ex row \<and> 1 - cosine_distance w e q > threshold"
proof -
  let ?kept = "filter (\<lambda>rd. \<not> excluded ex (fst rd) \<and> 1 - snd rd > threshold)
                 (List.map_filter (with_distance w q) rows)"
  from assms(1) have rs: "rs = map to_match_row (take (nat k) (sort_key snd ?kept))"
    by (simp add: match_rows_def split: if_splits)
  with assms(2) obtain rd where rd: "rd \<in> set (take (nat k) (sort_key snd ?kept))" "r = to_match_row rd"
    by auto
  from rd(1) have "rd \<in> set (sort_key snd ?kept)" by (rule in_set_takeD)
  then have k: "rd \<in> set ?kept" by simp
  then have p: "\<not> excluded ex (fst rd)" "1 - snd rd > threshold"
    and m: "rd \<in> set (List.map_filter (with_distance w q) rows)" by auto
  from map_filter_with_distance[OF m] obtain e
    where e: "fst rd \<in> set rows" "col_embedding (fst rd) = Some e" "snd rd = cosine_distance w e q"
    by blast
  have "rd = (fst rd, cosine_distance w e q)" using e(3) by (cases rd) simp
  with rd(2) e p show ?thesis by metis
qed

lemma sorted_similarity:
  "sorted (map snd xs) \<Longrightarrow>
     sorted_wrt (\<lambda>a b. similarity a \<ge> similarity b) (map to_match_row xs)"
  by (induction xs) (auto simp: to_match_row_def)

lemma match_rows_sorted:
  assumes "match_rows w rows q threshold k ex = Inr rs"
  shows "sorted_wrt (\<lambda>a b. similarity a \<ge> similarity b) rs"
proof -
  let ?kept = "filter (\<lambda>rd. \<not> excluded ex (fst rd) \<and> 1 - snd rd > threshold)
                 (List.map_filter (with_distance w q) rows)"
  from assms have rs: "rs = map to_match_row (take (nat k) (sort_key snd ?kept))"
    by (simp add: match_rows_def split: if_splits)
  have "sorted (map snd (sort_key snd ?kept))" by (rule sorted_sort_key)
  then have "sorted (take (nat k) (map snd (sort_key snd ?kept)))" by (rule sorted_wrt_take)
  then have "sorted (map snd (take (nat k) (sort_key snd ?kept)))" by (simp add: take_map)
  then show ?thesis unfolding rs by (rule sorted_similarity)
qed

lemma match_rows_length:
  assumes "match_rows w rows q threshold k ex = Inr rs"
  shows "int (length rs) \<le> k"
  using assms by (auto simp: match_rows_def split: if_splits)

lemma match_rows_search_result:
  assumes "match_rows w rows q threshold k ex = Inr rs"
  shows "search_result w rows q threshold k rs"
  unfolding search_result_def
proof (intro conjI ballI)
  show "sorted_wrt (\<lambda>a b. similarity a \<ge> similarity b) rs" using assms by (rule match_rows_sorted)
  show "int (length rs) \<le> k" using assms by (rule match_rows_length)
next
  fix r assume "r \<in> set rs"
  from match_rows_member[OF assms this] obtain row e
    where *: "row \<in> set rows" "col_embedding row = Some e"
      "r = to_match_row (row, cosine_distance w e q)" "1 - cosine_distance w e q > threshold"
    by blast
  then show "similarity r > threshold" by (simp add: to_match_row_def)
  from * show "\<exists>row\<in>set rows. \<exists>e. col_embedding row = Some e
                  \<and> similarity r = 1 - cosine_distance w e q
                  \<and> attendee_id r = col_attendee_id row \<and> match_text r = col_text row"
    by (auto simp: to_match_row_def)
qed

lemma match_rows_total: "0 \<le> k \<Longrightarrow> \<exists>rs. match_rows w rows q threshold k ex = Inr rs"
  by (simp add: match_rows_def)

lemma match_rows_exclusion:
  assumes "match_rows w rows q threshold k (Some x) = Inr rs" and "r \<in> set rs"
  shows "\<exists>y. attendee_id r = Some y \<and> y \<noteq> x"
proof -
  from match_rows_member[OF assms] obtain row e
    where *: "r = to_match_row (row, cosine_distance w e q)" "\<not> excluded (Some x) row"
    by blast
  then show ?thesis by (auto simp: to_match_row_def excluded_def split: option.splits)
qed

section \<open>Claims on the vector search\<close>

text \<open>
  C4. With a count that is not negative, \<open>match_offerings\<close> and \<open>match_requests\<close> return
  a list in descending order of similarity, where the similarity of an entry is one minus
  the cosine distance of its stored embedding to the query embedding; every entry has a
  similarity strictly above the threshold; and the list has at most \<open>match_count\<close>
  entries.
\<close>

theorem vector_search_ordered_filtered_limited:
  assumes "0 \<le> match_count"
  shows "(\<exists>rs. match_offerings w q match_threshold match_count ex = Inr rs
            \<and> search_result w (offerings w) q match_threshold match_count rs)
       \<and> (\<exists>rs. match_requests w q match_threshold match_count ex = Inr rs
            \<and> search_result w (requests w) q match_threshold match_count rs)"
proof -
  from match_rows_total[OF assms] obtain rs1
    where 1: "match_rows w (offerings w) q match_threshold match_count ex = Inr rs1" by blast
  from match_rows_total[OF assms] obtain rs2
    where 2: "match_rows w (requests w) q match_threshold match_count ex = Inr rs2" by blast
  from 1 2 match_rows_search_result[OF 1] match_rows_search_result[OF 2]
  show ?thesis unfolding match_offerings_def match_requests_def by blast
qed

theorem vector_search_ordered_filtered_limited_witness:
  "(0::int) \<le> 50
   \<and> match_offerings (ex_world []) [1] (1 / 2) 50 None
       = Inr [\<lparr>attendee_id = Some 7, match_text = ''I can mentor on AI safety'', similarity = 3 / 4\<rparr>,
              \<lparr>attendee_id = Some 1, match_text = ''I can review grant proposals'',
               similarity = 3 / 4\<rparr>]
   \<and> (\<exists>rs. match_requests (ex_world []) [1] (1 / 2) 50 None = Inr rs
          \<and> search_result (ex_world []) (requests (ex_world [])) [1] (1 / 2) 50 rs)"
proof -
  have "match_offerings (ex_world []) [1] (1 / 2) 50 None
       = Inr [\<lparr>attendee_id = Some 7, match_text = ''I can mentor on AI safety'', similarity = 3 / 4\<rparr>,
              \<lparr>attendee_id = Some 1, match_text = ''I can review grant proposals'',
               similarity = 3 / 4\<rparr>]"
    by (simp add: match_offerings_def match_rows_def ex_world_def List.map_filter_simps
        with_distance_def excluded_def to_match_row_def)
  moreover have le: "(0::int) \<le> 50" by simp
  moreover from vector_search_ordered_filtered_limited[OF le, of "ex_world []" "[1]" "1 / 2" None]
  have "\<exists>rs. match_requests (ex_world []) [1] (1 / 2) 50 None = Inr rs
          \<and> search_result (ex_world []) (requests (ex_world [])) [1] (1 / 2) 50 rs"
    by (rule conjunct2)
  ultimately show ?thesis by (intro conjI)
qed

section \<open>Lemmas on the calls and the candidates of the entry points\<close>

lemma generateSyntheticOffering_trace:
  "generateSyntheticOffering w r tr = (res, tr') \<Longrightarrow> tr' = tr \<or> tr' = SyntheticCall r # tr"
  by (auto simp: generateSyntheticOffering_def Let_def split: if_splits gen_response.splits)

lemma generateEmbedding_trace:
  "generateEmbedding w t tr = (res, tr') \<Longrightarrow> tr' = tr \<or> tr' = EmbeddingCall t # tr"
  by (auto simp: generateEmbedding_def Let_def split: if_splits embed_response.splits)

lemma rpc_trace:
  "rpc w tbl q threshold k ex tr = (res, tr') \<Longrightarrow> tr' = RpcCall tbl q threshold k ex # tr"
  by (auto simp: rpc_def Let_def split: option.splits table.splits)

lemma rpc_rows:
  "rpc w tbl q threshold k ex tr = (Inr raw, tr') \<Longrightarrow>
     \<exists>v. to_vector q = Some v
       \<and> match_rows w (case tbl of Offerings \<Rightarrow> offerings w | Requests \<Rightarrow> requests w)
            v threshold k ex = Inr raw"
  by (auto simp: rpc_def Let_def match_offerings_def match_requests_def
      split: option.splits table.splits)

lemma attendee_by_id_trace:
  "attendee_by_id w aid tr = (res, tr') \<Longrightarrow> tr' = AttendeeByIdCall aid # tr"
  by (auto simp: attendee_by_id_def Let_def split: option.splits list.splits)

lemma attendee_by_id_Some:
  "attendee_by_id w aid tr = (Some a, tr') \<Longrightarrow> a \<in> set (attendees w) \<and> aid = Some (id_col a)"
proof -
  assume "attendee_by_id w aid tr = (Some a, tr')"
  then have "filter (\<lambda>a. Some (id_col a) = aid) (attendees w) = [a]"
    by (auto simp: attendee_by_id_def Let_def split: option.splits list.splits)
  then have "a \<in> set (filter (\<lambda>a. Some (id_col a) = aid) (attendees w))" by simp
  then show ?thesis by auto
qed

lemma validMatches_trace:
  "validMatches w raw tr = (cs, tr') \<Longrightarrow>
     \<exists>new. tr' = new @ tr \<and> (\<forall>c\<in>set new. \<exists>aid. c = AttendeeByIdCall aid)"
proof (induction raw arbitrary: tr cs tr')
  case Nil
  then show ?case by simp
next
  case (Cons m ms)
  obtain r tr1 where a: "attendee_by_id w (attendee_id m) tr = (r, tr1)" by fastforce
  then have t1: "tr1 = AttendeeByIdCall (attendee_id m) # tr" by (rule attendee_by_id_trace)
  obtain cs2 tr2 where v: "validMatches w ms tr1 = (cs2, tr2)" by fastforce
  from Cons.IH[OF v] obtain new where n: "tr2 = new @ tr1"
    "\<forall>c\<in>set new. \<exists>aid. c = AttendeeByIdCall aid" by blast
  from Cons.prems a v have "tr' = tr2" by (cases r) auto
  with n t1 have "tr' = (new @ [AttendeeByIdCall (attendee_id m)]) @ tr" by simp
  moreover from n(2) have "\<forall>c\<in>set (new @ [AttendeeByIdCall (attendee_id m)]). \<exists>aid. c = AttendeeByIdCall aid"
    by auto
  ultimately show ?case by blast
qed

lemma validMatches_member:
  "validMatches w raw tr = (cs, tr') \<Longrightarrow> c \<in> set cs \<Longrightarrow>
     \<exists>m a. m \<in> set raw \<and> a \<in> set (attendees w) \<and> attendee_id m = Some (id_col a)
       \<and> c = \<lparr>attendee_id = attendee_id m, match_text = match_text m,
               similarity = similarity m, attendee = Some a\<rparr>"
proof (induction raw arbitrary: tr cs tr')
  case Nil
  then show ?case by simp
next
  case (Cons m ms)
  obtain r tr1 where a: "attendee_by_id w (attendee_id m) tr = (r, tr1)" by fastforce
  obtain cs2 tr2 where v: "validMatches w ms tr1 = (cs2, tr2)" by fastforce
  show ?case
  proof (cases r)
    case None
    with Cons.prems a v have "cs = cs2" by simp
    with Cons.IH[OF v] Cons.prems(2) show ?thesis by fastforce
  next
    case (Some a')
    with Cons.prems a v have cs: "cs = \<lparr>attendee_id = attendee_id m, match_text = match_text m,
               similarity = similarity m, attendee = Some a'\<rparr> # cs2" by simp
    from a Some attendee_by_id_Some have a': "a' \<in> set (attendees w)" "attendee_id m = Some (id_col a')"
      by blast+
    from Cons.prems(2) cs consider "c = \<lparr>attendee_id = attendee_id m, match_text = match_text m,
               similarity = similarity m, attendee = Some a'\<rparr>" | "c \<in> set cs2" by auto
    then show ?thesis
    proof cases
      case 1
      with a' show ?thesis by (intro exI[of _ m] exI[of _ a']) simp
    next
      case 2
      with Cons.IH[OF v] show ?thesis by fastforce
    qed
  qed
qed

lemma matchDescriptions_ids:
  "matchDescriptions i ms = Some ds \<Longrightarrow> d \<in> set ds \<Longrightarrow> \<exists>m\<in>set ms. desc_attendee_id d = attendee_id m"
proof (induction ms arbitrary: i ds)
  case Nil
  then show ?case by simp
next
  case (Cons m ms)
  then show ?case by (fastforce split: option.splits)
qed

lemma finalResults_member:
  assumes "r \<in> set (finalResults ms idxs)"
  shows "\<exists>m\<in>set ms. \<exists>a. attendee m = Some a \<and> r = to_final_result m a"
proof -
  from finalResults_valid[OF assms] obtain e where e: "valid_index ms e" "r = result_of ms e"
    by blast
  from e(1) obtain k where k: "k < length ms" "attendee (ms ! k) \<noteq> None"
    "result_of ms e = result_at ms k" by (rule valid_index_D)
  from k(1) have "ms ! k \<in> set ms" by (rule nth_mem)
  moreover from k(2) obtain a where "attendee (ms ! k) = Some a" by auto
  moreover from this e(2) k(3) have "r = to_final_result (ms ! k) a" by (simp add: result_at_def)
  ultimately show ?thesis by blast
qed

lemma rerankMatches_member:
  assumes "rerankMatches w q qt ms k tr = (Inr out, tr')" and "r \<in> set out"
  shows "\<exists>m\<in>set ms. \<exists>a. attendee m = Some a \<and> r = to_final_result m a"
proof -
  from assms(1) obtain t where "select_results w ms k t = Inr out"
    by (auto simp: rerankMatches_def Let_def split: option.splits gen_response.splits)
  then obtain idxs where "out = finalResults ms idxs"
    by (auto simp: select_results_def split: sum.splits option.splits json.splits)
  with assms(2) finalResults_member show ?thesis by blast
qed

lemma rpc_excluding:
  assumes "rpc w tbl q threshold k (Some x) tr = (Inr raw, tr')" and "m \<in> set raw"
  shows "\<exists>y. attendee_id m = Some y \<and> y \<noteq> x"
proof -
  from rpc_rows[OF assms(1)] obtain v
    where "match_rows w (case tbl of Offerings \<Rightarrow> offerings w | Requests \<Rightarrow> requests w)
            v threshold k (Some x) = Inr raw" by blast
  from match_rows_exclusion[OF this assms(2)] show ?thesis .
qed

lemma valid_from_other:
  assumes "rpc w tbl q threshold k (Some x) tr = (Inr raw, tr1)"
    and "validMatches w raw tr1 = (valid, tr2)" and "c \<in> set valid"
  shows "from_other w x c"
proof -
  from validMatches_member[OF assms(2,3)] obtain m a
    where m: "m \<in> set raw" "a \<in> set (attendees w)" "attendee_id m = Some (id_col a)"
      and c: "c = \<lparr>attendee_id = attendee_id m, match_text = match_text m,
               similarity = similarity m, attendee = Some a\<rparr>" by blast
  from rpc_excluding[OF assms(1) m(1)] m(3) have "id_col a \<noteq> x" by auto
  with m c show ?thesis by (auto simp: from_other_def)
qed

lemma rerank_of_others:
  assumes "\<forall>c\<in>set valid. from_other w x c"
    and "rerankMatches w q qt valid k tr = (res, tr')"
    and "\<forall>c\<in>set tr. call_ok x c"
  shows "(\<forall>c\<in>set tr'. call_ok x c) \<and> (\<forall>out. res = Inr out \<longrightarrow> (\<forall>r\<in>set out. not_self w x r))"
proof
  from rerankMatches_trace[OF assms(2)]
  show "\<forall>c\<in>set tr'. call_ok x c"
  proof
    assume "tr' = tr" with assms(3) show ?thesis by simp
  next
    assume "\<exists>ds. matchDescriptions 0 valid = Some ds \<and> tr' = RerankCall q qt ds k # tr"
    then obtain ds where ds: "matchDescriptions 0 valid = Some ds" "tr' = RerankCall q qt ds k # tr"
      by blast
    have "\<forall>d\<in>set ds. desc_attendee_id d \<noteq> Some x"
    proof
      fix d assume "d \<in> set ds"
      from matchDescriptions_ids[OF ds(1) this] obtain m where "m \<in> set valid"
        "desc_attendee_id d = attendee_id m" by blast
      with assms(1) show "desc_attendee_id d \<noteq> Some x" by (auto simp: from_other_def)
    qed
    then have "call_ok x (RerankCall q qt ds k)" by (simp add: call_ok_def)
    with ds(2) assms(3) show ?thesis by simp
  qed
next
  show "\<forall>out. res = Inr out \<longrightarrow> (\<forall>r\<in>set out. not_self w x r)"
  proof (intro allI impI ballI)
    fix out r assume "res = Inr out" "r \<in> set out"
    with assms(2) rerankMatches_member obtain m a where "m \<in> set valid" "attendee m = Some a"
      "r = to_final_result m a" by blast
    with assms(1) show "not_self w x r" unfolding from_other_def not_self_def by fastforce
  qed
qed

lemma match_item_cases:
  assumes "match_item w tbl qt x item_text q tr = (res, tr')"
  obtains (rpc_failed) msg where "rpc w tbl q 0.5 50 (Some x) tr = (Inl msg, tr')" "res = Inr None"
  | (no_rows) "rpc w tbl q 0.5 50 (Some x) tr = (Inr [], tr')" "res = Inr None"
  | (no_valid) raw tr1 where "rpc w tbl q 0.5 50 (Some x) tr = (Inr raw, tr1)" "raw \<noteq> []"
      "validMatches w raw tr1 = ([], tr')" "res = Inr None"
  | (reranked) raw tr1 valid tr2 r where "rpc w tbl q 0.5 50 (Some x) tr = (Inr raw, tr1)"
      "raw \<noteq> []" "validMatches w raw tr1 = (valid, tr2)" "valid \<noteq> []"
      "rerankMatches w item_text qt valid 25 tr2 = (r, tr')"
      "res = (case r of Inl e \<Rightarrow> Inl e | Inr ms \<Rightarrow> Inr (Some ms))"
proof -
  obtain r0 tr1 where r0: "rpc w tbl q 0.5 50 (Some x) tr = (r0, tr1)" by fastforce
  show thesis
  proof (cases r0)
    case (Inl msg)
    with assms r0 show ?thesis by (intro rpc_failed[of msg]) (auto simp: match_item_def)
  next
    case (Inr raw)
    show ?thesis
    proof (cases "raw = []")
      case True
      with assms r0 Inr show ?thesis by (intro no_rows) (auto simp: match_item_def)
    next
      case False
      obtain valid tr2 where v: "validMatches w raw tr1 = (valid, tr2)" by fastforce
      show ?thesis
      proof (cases "valid = []")
        case True
        with assms r0 Inr False v show ?thesis
          by (intro no_valid[of raw tr1]) (auto simp: match_item_def)
      next
        case nv: False
        obtain r tr3 where rr: "rerankMatches w item_text qt valid 25 tr2 = (r, tr3)" by fastforce
        with assms r0 Inr False v nv have "tr' = tr3"
          "res = (case r of Inl e \<Rightarrow> Inl e | Inr ms \<Rightarrow> Inr (Some ms))"
          by (auto simp: match_item_def split: sum.splits)
        with r0 Inr False v nv rr show ?thesis by (intro reranked[of raw tr1 valid tr2 r]) auto
      qed
    qed
  qed
qed

lemma ok_append:
  "\<forall>c\<in>set tr. call_ok x c \<Longrightarrow> \<forall>c\<in>set new. \<exists>aid. c = AttendeeByIdCall aid \<Longrightarrow>
     \<forall>c\<in>set (new @ tr). call_ok x c"
  by (auto simp: call_ok_def)

lemma match_item_ok:
  assumes "match_item w tbl qt x item_text q tr = (res, tr')" and "\<forall>c\<in>set tr. call_ok x c"
  shows "(\<forall>c\<in>set tr'. call_ok x c) \<and> (\<forall>ms. res = Inr (Some ms) \<longrightarrow> (\<forall>r\<in>set ms. not_self w x r))"
  using assms(1)
proof (cases rule: match_item_cases)
  case (rpc_failed msg)
  from rpc_trace[OF rpc_failed(1)] assms(2) rpc_failed(2) show ?thesis by (simp add: call_ok_def)
next
  case no_rows
  from rpc_trace[OF no_rows(1)] assms(2) no_rows(2) show ?thesis by (simp add: call_ok_def)
next
  case (no_valid raw tr1)
  from rpc_trace[OF no_valid(1)] assms(2) have 1: "\<forall>c\<in>set tr1. call_ok x c" by (simp add: call_ok_def)
  from validMatches_trace[OF no_valid(3)] obtain new where "tr' = new @ tr1"
    "\<forall>c\<in>set new. \<exists>aid. c = AttendeeByIdCall aid" by blast
  with ok_append[OF 1] no_valid(4) show ?thesis by simp
next
  case (reranked raw tr1 valid tr2 r)
  from rpc_trace[OF reranked(1)] assms(2) have 1: "\<forall>c\<in>set tr1. call_ok x c" by (simp add: call_ok_def)
  from validMatches_trace[OF reranked(3)] obtain new where "tr2 = new @ tr1"
    "\<forall>c\<in>set new. \<exists>aid. c = AttendeeByIdCall aid" by blast
  with ok_append[OF 1] have 2: "\<forall>c\<in>set tr2. call_ok x c" by simp
  have "\<forall>c\<in>set valid. from_other w x c"
    using valid_from_other[OF reranked(1,3)] by blast
  from rerank_of_others[OF this reranked(5) 2] reranked(6) show ?thesis
    by (auto split: sum.splits)
qed

lemma benign_ok: "benign c \<Longrightarrow> call_ok x c"
  by (cases c) (simp_all add: benign_def call_ok_def)

lemma generateSyntheticOffering_benign:
  "generateSyntheticOffering w r tr = (res, tr') \<Longrightarrow> \<exists>new. tr' = new @ tr \<and> (\<forall>c\<in>set new. benign c)"
proof -
  assume "generateSyntheticOffering w r tr = (res, tr')"
  from generateSyntheticOffering_trace[OF this] show ?thesis
  proof
    assume "tr' = tr" then show ?thesis by simp
  next
    assume "tr' = SyntheticCall r # tr"
    then have "tr' = [SyntheticCall r] @ tr \<and> (\<forall>c\<in>set [SyntheticCall r]. benign c)"
      by (simp add: benign_def)
    then show ?thesis by (rule exI)
  qed
qed

lemma generateEmbedding_benign:
  "generateEmbedding w t tr = (res, tr') \<Longrightarrow> \<exists>new. tr' = new @ tr \<and> (\<forall>c\<in>set new. benign c)"
proof -
  assume "generateEmbedding w t tr = (res, tr')"
  from generateEmbedding_trace[OF this] show ?thesis
  proof
    assume "tr' = tr" then show ?thesis by simp
  next
    assume "tr' = EmbeddingCall t # tr"
    then have "tr' = [EmbeddingCall t] @ tr \<and> (\<forall>c\<in>set [EmbeddingCall t]. benign c)"
      by (simp add: benign_def)
    then show ?thesis by (rule exI)
  qed
qed

lemma select_texts_benign:
  "select_texts w tbl aid tr = (res, tr') \<Longrightarrow> \<exists>new. tr' = new @ tr \<and> (\<forall>c\<in>set new. benign c)"
proof -
  assume "select_texts w tbl aid tr = (res, tr')"
  then have "tr' = [SelectTextsCall tbl aid] @ tr \<and> (\<forall>c\<in>set [SelectTextsCall tbl aid]. benign c)"
    by (auto simp: select_texts_def Let_def benign_def split: option.splits)
  then show ?thesis by (rule exI)
qed

lemma ilike_both_trace:
  "ilike_both w f l tr = (res, tr') \<Longrightarrow> tr' = IlikeBothCall f l # tr"
  by (auto simp: ilike_both_def Let_def split: option.splits)

lemma ilike_either_trace:
  "ilike_either w f l tr = (res, tr') \<Longrightarrow> tr' = IlikeEitherCall f l # tr"
  by (auto simp: ilike_either_def Let_def split: option.splits)

lemma strategy1_benign:
  "strategy1 w name tr = (st, tr') \<Longrightarrow> \<exists>new. tr' = new @ tr \<and> (\<forall>c\<in>set new. benign c)"
proof (cases "length (nameParts name) \<ge> 2")
  case True
  assume a: "strategy1 w name tr = (st, tr')"
  obtain r tr1 where i: "ilike_both w (hd (nameParts name)) (join (tl (nameParts name)) '' '') tr = (r, tr1)"
    by fastforce
  with a True have "tr' = tr1" by (simp add: strategy1_def Let_def)
  with ilike_both_trace[OF i]
  have "tr' = [IlikeBothCall (hd (nameParts name)) (join (tl (nameParts name)) '' '')] @ tr
      \<and> (\<forall>c\<in>set [IlikeBothCall (hd (nameParts name)) (join (tl (nameParts name)) '' '')]. benign c)"
    by (simp add: benign_def)
  then show ?thesis by (rule exI)
next
  case False
  assume "strategy1 w name tr = (st, tr')"
  with False have "tr' = tr" by (simp add: strategy1_def)
  then show ?thesis by simp
qed

lemma strategy2_benign:
  "strategy2 w name (st0, tr) = (st, tr') \<Longrightarrow> \<exists>new. tr' = new @ tr \<and> (\<forall>c\<in>set new. benign c)"
proof (cases "no_rows (fst st0)")
  case True
  assume a: "strategy2 w name (st0, tr) = (st, tr')"
  obtain r tr1 where i: "ilike_either w name name tr = (r, tr1)" by fastforce
  with a True have "tr' = tr1" by (cases st0) (simp add: strategy2_def)
  with ilike_either_trace[OF i]
  have "tr' = [IlikeEitherCall name name] @ tr \<and> (\<forall>c\<in>set [IlikeEitherCall name name]. benign c)"
    by (simp add: benign_def)
  then show ?thesis by (rule exI)
next
  case False
  assume "strategy2 w name (st0, tr) = (st, tr')"
  with False have "tr' = tr" by (cases st0) (simp add: strategy2_def)
  then show ?thesis by simp
qed

lemma strategy3_benign:
  "strategy3 w name (st0, tr) = (st, tr') \<Longrightarrow> \<exists>new. tr' = new @ tr \<and> (\<forall>c\<in>set new. benign c)"
proof (cases "no_rows (fst st0) \<and> length (nameParts name) \<ge> 2")
  case True
  assume a: "strategy3 w name (st0, tr) = (st, tr')"
  obtain r tr1 where i: "ilike_either w (hd (nameParts name)) (last (nameParts name)) tr = (r, tr1)"
    by fastforce
  with a True have "tr' = tr1" by (cases st0) (simp add: strategy3_def Let_def)
  with ilike_either_trace[OF i]
  have "tr' = [IlikeEitherCall (hd (nameParts name)) (last (nameParts name))] @ tr
     \<and> (\<forall>c\<in>set [IlikeEitherCall (hd (nameParts name)) (last (nameParts name))]. benign c)"
    by (simp add: benign_def)
  then show ?thesis by (rule exI)
next
  case False
  assume "strategy3 w name (st0, tr) = (st, tr')"
  with False have "tr' = tr" by (cases st0) (auto simp add: strategy3_def)
  then show ?thesis by simp
qed

lemma benign_compose:
  assumes "\<exists>new. tr1 = new @ tr \<and> (\<forall>c\<in>set new. benign c)"
    and "\<exists>new. tr2 = new @ tr1 \<and> (\<forall>c\<in>set new. benign c)"
  shows "\<exists>new. tr2 = new @ tr \<and> (\<forall>c\<in>set new. benign c)"
proof -
  from assms obtain n1 n2 where "tr1 = n1 @ tr" "\<forall>c\<in>set n1. benign c" "tr2 = n2 @ tr1"
    "\<forall>c\<in>set n2. benign c" by blast
  then have "tr2 = (n2 @ n1) @ tr \<and> (\<forall>c\<in>set (n2 @ n1). benign c)" by auto
  then show ?thesis by (rule exI)
qed

lemma resolve_attendee_benign:
  assumes "resolve_attendee w name tr = (r, tr')"
  shows "\<exists>new. tr' = new @ tr \<and> (\<forall>c\<in>set new. benign c)"
proof -
  obtain s1 t1 where 1: "strategy1 w name tr = (s1, t1)" by fastforce
  obtain s2 t2 where 2: "strategy2 w name (s1, t1) = (s2, t2)" by fastforce
  obtain s3 t3 where 3: "strategy3 w name (s2, t2) = (s3, t3)" by fastforce
  from assms 1 2 3 have "tr' = t3"
    by (cases s3) (auto simp: resolve_attendee_def split: option.splits list.splits)
  with benign_compose[OF benign_compose[OF strategy1_benign[OF 1] strategy2_benign[OF 2]]
      strategy3_benign[OF 3]]
  show ?thesis by simp
qed

lemma benign_extension_ok:
  "\<exists>new. tr' = new @ tr \<and> (\<forall>c\<in>set new. benign c) \<Longrightarrow> \<forall>c\<in>set tr. call_ok x c \<Longrightarrow>
     \<forall>c\<in>set tr'. call_ok x c"
  by (auto simp: benign_ok)

lemma request_matches_ok:
  assumes "request_matches w x t tr = (res, tr')" and "\<forall>c\<in>set tr. call_ok x c"
  shows "(\<forall>c\<in>set tr'. call_ok x c) \<and> (\<forall>ms. res = Inr (Some ms) \<longrightarrow> (\<forall>r\<in>set ms. not_self w x r))"
proof -
  obtain r1 tr1 where s: "generateSyntheticOffering w t tr = (r1, tr1)" by fastforce
  from benign_extension_ok[OF generateSyntheticOffering_benign[OF s] assms(2)]
  have 1: "\<forall>c\<in>set tr1. call_ok x c" .
  show ?thesis
  proof (cases r1)
    case (Inl e)
    with assms(1) s 1 show ?thesis by (auto simp: request_matches_def)
  next
    case (Inr so)
    obtain r2 tr2 where e: "generateEmbedding w so tr1 = (r2, tr2)" by fastforce
    from benign_extension_ok[OF generateEmbedding_benign[OF e] 1]
    have 2: "\<forall>c\<in>set tr2. call_ok x c" .
    show ?thesis
    proof (cases r2)
      case (Inl e')
      with assms(1) s Inr e 2 show ?thesis by (auto simp: request_matches_def)
    next
      case (Inr q)
      with assms(1) s \<open>r1 = Inr so\<close> e have "match_item w Offerings Request x t q tr2 = (res, tr')"
        by (simp add: request_matches_def)
      from match_item_ok[OF this 2] show ?thesis .
    qed
  qed
qed

lemma offering_matches_ok:
  assumes "offering_matches w x t tr = (res, tr')" and "\<forall>c\<in>set tr. call_ok x c"
  shows "(\<forall>c\<in>set tr'. call_ok x c) \<and> (\<forall>ms. res = Inr (Some ms) \<longrightarrow> (\<forall>r\<in>set ms. not_self w x r))"
proof -
  obtain r1 tr1 where e: "generateEmbedding w t tr = (r1, tr1)" by fastforce
  from benign_extension_ok[OF generateEmbedding_benign[OF e] assms(2)]
  have 1: "\<forall>c\<in>set tr1. call_ok x c" .
  show ?thesis
  proof (cases r1)
    case (Inl e')
    with assms(1) e 1 show ?thesis by (auto simp: offering_matches_def)
  next
    case (Inr q)
    with assms(1) e have "match_item w Requests Offering x t q tr1 = (res, tr')"
      by (simp add: offering_matches_def)
    from match_item_ok[OF this 1] show ?thesis .
  qed
qed

lemma groups_loop_invariant:
  assumes step: "\<And>t tr res tr'. I tr \<Longrightarrow> step t tr = (res, tr') \<Longrightarrow>
                   I tr' \<and> (\<forall>ms. res = Inr (Some ms) \<longrightarrow> Q t ms)"
  shows "I tr \<Longrightarrow> groups_loop step ts tr = (res, tr') \<Longrightarrow>
           I tr' \<and> (\<forall>gs. res = Inr gs \<longrightarrow> (\<forall>g\<in>set gs. Q (fst g) (snd g)))"
proof (induction ts arbitrary: tr res tr')
  case Nil
  then show ?case by auto
next
  case (Cons t ts)
  obtain r1 tr1 where s: "step t tr = (r1, tr1)" by fastforce
  from step[OF Cons.prems(1) s] have i1: "I tr1" and q1: "\<forall>ms. r1 = Inr (Some ms) \<longrightarrow> Q t ms"
    by blast+
  show ?case
  proof (cases r1)
    case (Inl e)
    with Cons.prems(2) s i1 show ?thesis by auto
  next
    case (Inr pushed)
    obtain r2 tr2 where l: "groups_loop step ts tr1 = (r2, tr2)" by fastforce
    from Cons.IH[OF i1 l] have i2: "I tr2"
      and q2: "\<forall>gs. r2 = Inr gs \<longrightarrow> (\<forall>g\<in>set gs. Q (fst g) (snd g))" by blast+
    show ?thesis
    proof (cases r2)
      case (Inl e)
      with Cons.prems(2) s \<open>r1 = Inr pushed\<close> l i2 show ?thesis by auto
    next
      case (Inr groups)
      with Cons.prems(2) s \<open>r1 = Inr pushed\<close> l
      have "tr' = tr2"
        "res = Inr ((case pushed of None \<Rightarrow> [] | Some ms \<Rightarrow> [(t, ms)]) @ groups)" by auto
      with i2 q1 q2 \<open>r1 = Inr pushed\<close> Inr show ?thesis by (cases pushed) auto
    qed
  qed
qed

lemmas eval_defs =
  search_by_username_def resolve_attendee_def strategy1_def strategy2_def strategy3_def
  nameParts_def trim_def is_js_space_def ilike_both_def ilike_either_def ilike_def lower_def
  query_result_def no_rows_def bidirectional_def select_texts_def request_matches_def
  offering_matches_def match_item_def generateSyntheticOffering_def generateEmbedding_def
  l2_normalize_one rpc_def match_offerings_def match_requests_def match_rows_def
  List.map_filter_simps with_distance_def excluded_def to_match_row_def attendee_by_id_def
  rerankMatches_def select_results_def clean_result_text_def startsWith_def fence_def
  slice0_def element_at_def js_less_def js_greater_eq_def summary_def Let_def
  ex_world_def ex_generate_def ex_parse_def ex_coerced_def ada_def bob_def

lemma ex_resolve:
  "resolve_attendee (ex_world t) ''Ada Lovelace'' [] = (Found ada, [IlikeBothCall ''Ada'' ''Lovelace''])"
  by (simp add: eval_defs)

lemma bidirectional_ok_cases:
  assumes "bidirectional w a tr = (JsonResponse 200 (UsernameResult s g1 g2), tr')"
  obtains offering_texts tr1 request_texts tr2 tr3 where
    "select_texts w Offerings (id_col a) tr = (Inr offering_texts, tr1)"
    "select_texts w Requests (id_col a) tr1 = (Inr request_texts, tr2)"
    "groups_loop (request_matches w (id_col a)) request_texts tr2 = (Inr g1, tr3)"
    "groups_loop (offering_matches w (id_col a)) offering_texts tr3 = (Inr g2, tr')"
    "s = summary a"
proof -
  obtain r1 tr1 where 1: "select_texts w Offerings (id_col a) tr = (r1, tr1)" by fastforce
  obtain r2 tr2 where 2: "select_texts w Requests (id_col a) tr1 = (r2, tr2)" by fastforce
  from assms 1 obtain ots where o: "r1 = Inr ots"
    by (cases r1) (auto simp: bidirectional_def)
  from assms 1 2 o obtain rts where r: "r2 = Inr rts"
    by (cases r2) (auto simp: bidirectional_def)
  obtain r3 tr3 where 3: "groups_loop (request_matches w (id_col a)) rts tr2 = (r3, tr3)"
    by fastforce
  from assms 1 2 o r 3 obtain gs1 where g: "r3 = Inr gs1"
    by (cases r3) (auto simp: bidirectional_def)
  obtain r4 tr4 where 4: "groups_loop (offering_matches w (id_col a)) ots tr3 = (r4, tr4)"
    by fastforce
  from assms 1 2 o r 3 g 4 obtain gs2 where h: "r4 = Inr gs2"
    by (cases r4) (auto simp: bidirectional_def)
  from assms 1 2 o r 3 g 4 h have "g1 = gs1" "g2 = gs2" "tr' = tr4" "s = summary a"
    by (auto simp: bidirectional_def)
  with 1 2 3 4 o r g h show thesis by (intro that[of ots tr1 rts tr2 tr3]) auto
qed

lemma username_ok_bidirectional:
  assumes "resolve_attendee w name [] = (Found a, tr0)"
    and "search_by_username w (Post (Field (Str name))) = (JsonResponse 200 body', tr)"
  shows "bidirectional w a tr0 = (JsonResponse 200 body', tr)"
proof (cases "name = []")
  case True
  with assms(2) show ?thesis by (simp add: search_by_username_def)
next
  case False
  with assms show ?thesis by (simp add: search_by_username_def)
qed

lemma bidirectional_excludes_self:
  assumes "bidirectional w a tr0 = (JsonResponse 200 (UsernameResult s g1 g2), tr)"
    and "\<forall>c\<in>set tr0. call_ok (id_col a) c"
  shows "(\<forall>c\<in>set tr. call_ok (id_col a) c)
       \<and> (\<forall>g\<in>set (g1 @ g2). \<forall>r\<in>set (snd g). not_self w (id_col a) r)"
  using assms(1)
proof (cases rule: bidirectional_ok_cases)
  case (1 offering_texts tr1 request_texts tr2 tr3)
  from benign_extension_ok[OF select_texts_benign[OF 1(1)] assms(2)]
  have i1: "\<forall>c\<in>set tr1. call_ok (id_col a) c" .
  from benign_extension_ok[OF select_texts_benign[OF 1(2)] i1]
  have i2: "\<forall>c\<in>set tr2. call_ok (id_col a) c" .
  have s1: "(\<forall>c\<in>set tr'. call_ok (id_col a) c)
        \<and> (\<forall>ms. res = Inr (Some ms) \<longrightarrow> (\<forall>r\<in>set ms. not_self w (id_col a) r))"
    if "\<forall>c\<in>set tr. call_ok (id_col a) c" "request_matches w (id_col a) t tr = (res, tr')"
    for t tr res tr'
    using request_matches_ok[OF that(2) that(1)] .
  have s2: "(\<forall>c\<in>set tr'. call_ok (id_col a) c)
        \<and> (\<forall>ms. res = Inr (Some ms) \<longrightarrow> (\<forall>r\<in>set ms. not_self w (id_col a) r))"
    if "\<forall>c\<in>set tr. call_ok (id_col a) c" "offering_matches w (id_col a) t tr = (res, tr')"
    for t tr res tr'
    using offering_matches_ok[OF that(2) that(1)] .
  from groups_loop_invariant[where I = "\<lambda>tr. \<forall>c\<in>set tr. call_ok (id_col a) c"
      and Q = "\<lambda>t ms. \<forall>r\<in>set ms. not_self w (id_col a) r"
      and step = "request_matches w (id_col a)", OF s1 i2 1(3)]
  have i3: "\<forall>c\<in>set tr3. call_ok (id_col a) c"
    and q1: "\<forall>g\<in>set g1. \<forall>r\<in>set (snd g). not_self w (id_col a) r" by auto
  from groups_loop_invariant[where I = "\<lambda>tr. \<forall>c\<in>set tr. call_ok (id_col a) c"
      and Q = "\<lambda>t ms. \<forall>r\<in>set ms. not_self w (id_col a) r"
      and step = "offering_matches w (id_col a)", OF s2 i3 1(4)]
  have i4: "\<forall>c\<in>set tr. call_ok (id_col a) c"
    and q2: "\<forall>g\<in>set g2. \<forall>r\<in>set (snd g). not_self w (id_col a) r" by auto
  from i4 q1 q2 show ?thesis by auto
qed

lemma match_item_candidates:
  "match_item w tbl qt x t q tr =
     (case search_candidates w tbl x q tr of
        (cs, tr1) \<Rightarrow>
          if cs = [] then (Inr None, tr1)
          else
            (case rerankMatches w t qt cs 25 tr1 of
               (Inl e, tr2) \<Rightarrow> (Inl e, tr2)
             | (Inr ms, tr2) \<Rightarrow> (Inr (Some ms), tr2)))"
proof -
  obtain r0 tr1 where r0: "rpc w tbl q 0.5 50 (Some x) tr = (r0, tr1)" by fastforce
  show ?thesis
  proof (cases r0)
    case (Inl msg)
    with r0 show ?thesis by (simp add: match_item_def search_candidates_def)
  next
    case (Inr raw)
    show ?thesis
    proof (cases "raw = []")
      case True
      with r0 Inr show ?thesis by (simp add: match_item_def search_candidates_def)
    next
      case False
      obtain valid tr2 where v: "validMatches w raw tr1 = (valid, tr2)" by fastforce
      with r0 Inr False show ?thesis
        by (simp add: match_item_def search_candidates_def split: prod.splits sum.splits)
    qed
  qed
qed

lemma request_matches_candidates:
  "request_matches w x t tr =
     (case request_candidates w x t tr of
        (Inl e, tr1) \<Rightarrow> (Inl e, tr1)
      | (Inr cs, tr1) \<Rightarrow>
          if cs = [] then (Inr None, tr1)
          else
            (case rerankMatches w t Request cs 25 tr1 of
               (Inl e, tr2) \<Rightarrow> (Inl e, tr2)
             | (Inr ms, tr2) \<Rightarrow> (Inr (Some ms), tr2)))"
  by (simp add: request_matches_def request_candidates_def match_item_candidates
      split: prod.splits sum.splits)

lemma offering_matches_candidates:
  "offering_matches w x t tr =
     (case offering_candidates w x t tr of
        (Inl e, tr1) \<Rightarrow> (Inl e, tr1)
      | (Inr cs, tr1) \<Rightarrow>
          if cs = [] then (Inr None, tr1)
          else
            (case rerankMatches w t Offering cs 25 tr1 of
               (Inl e, tr2) \<Rightarrow> (Inl e, tr2)
             | (Inr ms, tr2) \<Rightarrow> (Inr (Some ms), tr2)))"
  by (simp add: offering_matches_def offering_candidates_def match_item_candidates
      split: prod.splits sum.splits)

lemma groups_loop_item_groups:
  assumes step: "\<And>t tr. step t tr =
     (case candidates t tr of
        (Inl e, tr1) \<Rightarrow> (Inl e, tr1)
      | (Inr cs, tr1) \<Rightarrow>
          if cs = [] then (Inr None, tr1)
          else
            (case rerank t cs tr1 of
               (Inl e, tr2) \<Rightarrow> (Inl e, tr2)
             | (Inr ms, tr2) \<Rightarrow> (Inr (Some ms), tr2)))"
  shows "groups_loop step ts tr = (Inr gs, tr') \<Longrightarrow> item_groups candidates rerank ts tr gs tr'"
proof (induction ts arbitrary: tr gs tr')
  case Nil
  then show ?case by simp
next
  case (Cons t ts)
  obtain c tr1 where c: "candidates t tr = (c, tr1)" by fastforce
  show ?case
  proof (cases c)
    case (Inl e)
    with c have "step t tr = (Inl e, tr1)" by (simp add: step)
    with Cons.prems show ?thesis by simp
  next
    case (Inr cs)
    show ?thesis
    proof (cases "cs = []")
      case True
      with c Inr have s: "step t tr = (Inr None, tr1)" by (simp add: step)
      obtain r2 tr2 where l: "groups_loop step ts tr1 = (r2, tr2)" by fastforce
      with Cons.prems s have "groups_loop step ts tr1 = (Inr gs, tr')"
        by (cases r2) auto
      from Cons.IH[OF this] c Inr True show ?thesis by simp
    next
      case False
      obtain r tr2 where rr: "rerank t cs tr1 = (r, tr2)" by fastforce
      show ?thesis
      proof (cases r)
        case (Inl e)
        with c \<open>c = Inr cs\<close> False rr have "step t tr = (Inl e, tr2)" by (simp add: step)
        with Cons.prems show ?thesis by simp
      next
        case ms: (Inr ms)
        with c \<open>c = Inr cs\<close> False rr have s: "step t tr = (Inr (Some ms), tr2)"
          by (simp add: step)
        obtain r3 tr3 where l: "groups_loop step ts tr2 = (r3, tr3)" by fastforce
        with Cons.prems s obtain groups where g: "groups_loop step ts tr2 = (Inr groups, tr')"
          "gs = (t, ms) # groups" by (cases r3) auto
        from Cons.IH[OF g(1)] c \<open>c = Inr cs\<close> False rr ms g(2) show ?thesis by simp
      qed
    qed
  qed
qed

lemma ex_run_matches:
  "fst (search_by_username (ex_world ''[0, 5, 0.5]'') (Post (Field (Str ''Ada Lovelace''))))
     = JsonResponse 200 (UsernameResult (summary ada)
         [(''I need mentorship in AI safety'', [to_final_result ex_candidate bob])]
         [(''I can review grant proposals'', [to_final_result ex_candidate2 bob])])"
  by (simp add: eval_defs ex_candidate_def ex_candidate2_def)

lemma ex_run_matches_pair:
  "search_by_username (ex_world ''[0, 5, 0.5]'') (Post (Field (Str ''Ada Lovelace'')))
     = (JsonResponse 200 (UsernameResult (summary ada)
         [(''I need mentorship in AI safety'', [to_final_result ex_candidate bob])]
         [(''I can review grant proposals'', [to_final_result ex_candidate2 bob])]),
        snd (search_by_username (ex_world ''[0, 5, 0.5]'') (Post (Field (Str ''Ada Lovelace'')))))"
  by (rule prod_eqI) (simp_all add: ex_run_matches)

section \<open>Claims on the identity mode\<close>

text \<open>
  C6. In a result of the identity mode for the resolved attendee \<open>a\<close>: every vector
  search was called with the id of \<open>a\<close> as the exclusion parameter and every list of
  candidates sent to the re-ranking is free of \<open>a\<close>; every match of every group is built
  from a candidate that belongs to another attendee of the table; and
  \<open>match_offerings\<close> and \<open>match_requests\<close>, called with that exclusion, return no row
  of \<open>a\<close>.
\<close>

theorem identity_mode_excludes_self:
  assumes "resolve_attendee w name [] = (Found a, tr0)"
    and "search_by_username w (Post (Field (Str name)))
           = (JsonResponse 200 (UsernameResult s g1 g2), tr)"
  shows "(\<forall>c\<in>set tr. call_ok (id_col a) c)
       \<and> (\<forall>g\<in>set (g1 @ g2). \<forall>r\<in>set (snd g). not_self w (id_col a) r)
       \<and> (\<forall>q t k rs. match_offerings w q t k (Some (id_col a)) = Inr rs
             \<longrightarrow> (\<forall>r\<in>set rs. attendee_id r \<noteq> Some (id_col a)))
       \<and> (\<forall>q t k rs. match_requests w q t k (Some (id_col a)) = Inr rs
             \<longrightarrow> (\<forall>r\<in>set rs. attendee_id r \<noteq> Some (id_col a)))"
proof -
  from resolve_attendee_benign[OF assms(1)] have "\<forall>c\<in>set tr0. benign c" by auto
  then have ok0: "\<forall>c\<in>set tr0. call_ok (id_col a) c" by (simp add: benign_ok)
  from bidirectional_excludes_self[OF username_ok_bidirectional[OF assms] ok0]
  have 1: "(\<forall>c\<in>set tr. call_ok (id_col a) c)
       \<and> (\<forall>g\<in>set (g1 @ g2). \<forall>r\<in>set (snd g). not_self w (id_col a) r)" .
  have 2: "\<forall>q t k rs. match_offerings w q t k (Some (id_col a)) = Inr rs
             \<longrightarrow> (\<forall>r\<in>set rs. attendee_id r \<noteq> Some (id_col a))"
    unfolding match_offerings_def using match_rows_exclusion by fastforce
  have 3: "\<forall>q t k rs. match_requests w q t k (Some (id_col a)) = Inr rs
             \<longrightarrow> (\<forall>r\<in>set rs. attendee_id r \<noteq> Some (id_col a))"
    unfolding match_requests_def using match_rows_exclusion by fastforce
  from 1 2 3 show ?thesis by (intro conjI) (elim conjE, assumption)+
qed

theorem identity_mode_excludes_self_witness:
  "resolve_attendee (ex_world ''[0, 5, 0.5]'') ''Ada Lovelace'' []
     = (Found ada, [IlikeBothCall ''Ada'' ''Lovelace''])
   \<and> list_all (call_ok 1)
       (snd (search_by_username (ex_world ''[0, 5, 0.5]'') (Post (Field (Str ''Ada Lovelace'')))))
   \<and> not_self (ex_world ''[0, 5, 0.5]'') 1 (to_final_result ex_candidate bob)
   \<and> not_self (ex_world ''[0, 5, 0.5]'') 1 (to_final_result ex_candidate2 bob)"
proof -
  note th = identity_mode_excludes_self[OF ex_resolve ex_run_matches_pair]
  have "(\<forall>c\<in>set (snd (search_by_username (ex_world ''[0, 5, 0.5]'')
                 (Post (Field (Str ''Ada Lovelace''))))). call_ok (id_col ada) c)"
    using th by (rule conjunct1)
  moreover
  have "\<forall>g\<in>set ([(''I need mentorship in AI safety'', [to_final_result ex_candidate bob])]
             @ [(''I can review grant proposals'', [to_final_result ex_candidate2 bob])]).
           \<forall>r\<in>set (snd g). not_self (ex_world ''[0, 5, 0.5]'') (id_col ada) r"
    using th[THEN conjunct2] by (rule conjunct1)
  moreover have "id_col ada = 1" by (simp add: ada_def)
  ultimately show ?thesis using ex_resolve by (simp add: list_all_iff)
qed

text \<open>
  C3 (as amended). In a result of the identity mode for the resolved attendee, the
  entries of \<open>people_who_can_help_you\<close> are the groups of the attendee's requests and the
  entries of \<open>people_you_can_help\<close> the groups of the attendee's offerings, taken in
  order: an item whose own vector search gives no candidate with an attendee contributes
  no group, and an item with such candidates contributes exactly one group, which holds
  what \<open>rerankMatches\<close> returned for the item's text on these candidates. The matches of
  a group are not tested after the re-ranking, so they can be empty.
\<close>

theorem identity_mode_groups_are_reranked_candidates:
  assumes "resolve_attendee w name [] = (Found a, tr0)"
    and "search_by_username w (Post (Field (Str name)))
           = (JsonResponse 200 (UsernameResult s g1 g2), tr)"
  shows "\<exists>offering_texts tr1 request_texts tr2 tr3.
           select_texts w Offerings (id_col a) tr0 = (Inr offering_texts, tr1)
         \<and> select_texts w Requests (id_col a) tr1 = (Inr request_texts, tr2)
         \<and> item_groups (request_candidates w (id_col a))
              (\<lambda>t cs. rerankMatches w t Request cs 25) request_texts tr2 g1 tr3
         \<and> item_groups (offering_candidates w (id_col a))
              (\<lambda>t cs. rerankMatches w t Offering cs 25) offering_texts tr3 g2 tr"
  using username_ok_bidirectional[OF assms]
proof (cases rule: bidirectional_ok_cases)
  case (1 offering_texts tr1 request_texts tr2 tr3)
  have r: "item_groups (request_candidates w (id_col a))
             (\<lambda>t cs. rerankMatches w t Request cs 25) request_texts tr2 g1 tr3"
    using 1(3) by (rule groups_loop_item_groups[rotated]) (rule request_matches_candidates)
  have o: "item_groups (offering_candidates w (id_col a))
             (\<lambda>t cs. rerankMatches w t Offering cs 25) offering_texts tr3 g2 tr"
    using 1(4) by (rule groups_loop_item_groups[rotated]) (rule offering_matches_candidates)
  from 1(1,2) r o show ?thesis by (intro exI conjI)
qed

theorem identity_mode_groups_are_reranked_candidates_witness:
  "\<exists>offering_texts tr1 request_texts tr2 tr3.
     select_texts (ex_world ''[0, 5, 0.5]'') Offerings (id_col ada) [IlikeBothCall ''Ada'' ''Lovelace'']
       = (Inr offering_texts, tr1)
   \<and> select_texts (ex_world ''[0, 5, 0.5]'') Requests (id_col ada) tr1 = (Inr request_texts, tr2)
   \<and> item_groups (request_candidates (ex_world ''[0, 5, 0.5]'') (id_col ada))
        (\<lambda>t cs. rerankMatches (ex_world ''[0, 5, 0.5]'') t Request cs 25) request_texts tr2
        [(''I need mentorship in AI safety'', [to_final_result ex_candidate bob])] tr3
   \<and> item_groups (offering_candidates (ex_world ''[0, 5, 0.5]'') (id_col ada))
        (\<lambda>t cs. rerankMatches (ex_world ''[0, 5, 0.5]'') t Offering cs 25) offering_texts tr3
        [(''I can review grant proposals'', [to_final_result ex_candidate2 bob])]
        (snd (search_by_username (ex_world ''[0, 5, 0.5]'') (Post (Field (Str ''Ada Lovelace'')))))"
  using identity_mode_groups_are_reranked_candidates[OF ex_resolve ex_run_matches_pair] .

text \<open>
  C3 as stated fails: when the re-ranking answers the empty array, the group of each
  item is pushed with no match.
\<close>

theorem identity_mode_empty_group_counterexample:
  "fst (search_by_username (ex_world ''[]'') (Post (Field (Str ''Ada Lovelace''))))
     = JsonResponse 200 (UsernameResult (summary ada)
         [(''I need mentorship in AI safety'', [])] [(''I can review grant proposals'', [])])"
  by (simp add: eval_defs)

section \<open>Claims on the free-text modes\<close>

lemma generateSyntheticOffering_Inr:
  "generateSyntheticOffering w r tr = (Inr so, tr') \<Longrightarrow> tr' = SyntheticCall r # tr"
  by (auto simp: generateSyntheticOffering_def Let_def split: if_splits gen_response.splits)

lemma generateEmbedding_Inr:
  "generateEmbedding w t tr = (Inr q, tr') \<Longrightarrow> tr' = EmbeddingCall t # tr"
  by (auto simp: generateEmbedding_def Let_def split: if_splits embed_response.splits)

lemmas far_defs = far_world_def ex_world_def ex_generate_def generateSyntheticOffering_def
  generateEmbedding_def trim_def is_js_space_def l2_normalize_one rpc_def
  match_offerings_def match_requests_def match_rows_def List.map_filter_simps with_distance_def
  excluded_def Let_def

text \<open>
  C7. In the request mode and in the offering mode, when the vector search returns no
  row the entry point answers \<open>{query, matches: []}\<close> with status 200, and the calls it
  made are the transformation (request mode only), the embedding and the vector search:
  the re-ranking is not called.
\<close>

theorem free_text_empty_short_circuit:
  assumes "query \<noteq> []"
  shows "(generateSyntheticOffering w query [] = (Inr so, tr1)
            \<longrightarrow> generateEmbedding w so tr1 = (Inr q, tr2)
            \<longrightarrow> rpc w Offerings q 0.5 50 None tr2 = (Inr [], tr3)
            \<longrightarrow> search_by_request w (Post (Field (Str query)))
                  = (JsonResponse 200 (FlatResult query []),
                     [RpcCall Offerings q 0.5 50 None, EmbeddingCall so, SyntheticCall query]))
       \<and> (generateEmbedding w query [] = (Inr q', tr1')
            \<longrightarrow> rpc w Requests q' 0.5 50 None tr1' = (Inr [], tr2')
            \<longrightarrow> search_by_offering w (Post (Field (Str query)))
                  = (JsonResponse 200 (FlatResult query []),
                     [RpcCall Requests q' 0.5 50 None, EmbeddingCall query]))"
proof (intro conjI impI)
  assume s: "generateSyntheticOffering w query [] = (Inr so, tr1)"
    and e: "generateEmbedding w so tr1 = (Inr q, tr2)"
    and r: "rpc w Offerings q 0.5 50 None tr2 = (Inr [], tr3)"
  from generateSyntheticOffering_Inr[OF s] have 1: "tr1 = [SyntheticCall query]" .
  from generateEmbedding_Inr[OF e] 1 have 2: "tr2 = [EmbeddingCall so, SyntheticCall query]" by simp
  from rpc_trace[OF r] 2
  have 3: "tr3 = [RpcCall Offerings q 0.5 50 None, EmbeddingCall so, SyntheticCall query]" by simp
  from assms s e r 3 show "search_by_request w (Post (Field (Str query)))
      = (JsonResponse 200 (FlatResult query []),
         [RpcCall Offerings q 0.5 50 None, EmbeddingCall so, SyntheticCall query])"
    by (simp add: search_by_request_def)
next
  assume e: "generateEmbedding w query [] = (Inr q', tr1')"
    and r: "rpc w Requests q' 0.5 50 None tr1' = (Inr [], tr2')"
  from generateEmbedding_Inr[OF e] have 1: "tr1' = [EmbeddingCall query]" .
  from rpc_trace[OF r] 1 have 2: "tr2' = [RpcCall Requests q' 0.5 50 None, EmbeddingCall query]"
    by simp
  from assms e r 2 show "search_by_offering w (Post (Field (Str query)))
      = (JsonResponse 200 (FlatResult query []),
         [RpcCall Requests q' 0.5 50 None, EmbeddingCall query])"
    by (simp add: search_by_offering_def)
qed

theorem free_text_empty_short_circuit_witness:
  "search_by_request far_world (Post (Field (Str ''I need a mentor'')))
     = (JsonResponse 200 (FlatResult ''I need a mentor'' []),
        [RpcCall Offerings [Num 1] 0.5 50 None, EmbeddingCall ''I can mentor'',
         SyntheticCall ''I need a mentor''])
   \<and> search_by_offering far_world (Post (Field (Str ''I can mentor'')))
     = (JsonResponse 200 (FlatResult ''I can mentor'' []),
        [RpcCall Requests [Num 1] 0.5 50 None, EmbeddingCall ''I can mentor''])
   \<and> \<not> list_ex is_rerank
        [RpcCall Offerings [Num 1] 0.5 50 None, EmbeddingCall ''I can mentor'',
         SyntheticCall ''I need a mentor'']"
proof -
  have s: "generateSyntheticOffering far_world ''I need a mentor'' []
             = (Inr ''I can mentor'', [SyntheticCall ''I need a mentor''])"
    by (simp add: far_defs)
  have e: "generateEmbedding far_world ''I can mentor'' [SyntheticCall ''I need a mentor'']
             = (Inr [Num 1], [EmbeddingCall ''I can mentor'', SyntheticCall ''I need a mentor''])"
    by (simp add: far_defs)
  have r: "rpc far_world Offerings [Num 1] 0.5 50 None
             [EmbeddingCall ''I can mentor'', SyntheticCall ''I need a mentor'']
           = (Inr [], [RpcCall Offerings [Num 1] 0.5 50 None, EmbeddingCall ''I can mentor'',
                SyntheticCall ''I need a mentor''])"
    by (simp add: far_defs)
  have e': "generateEmbedding far_world ''I can mentor'' []
             = (Inr [Num 1], [EmbeddingCall ''I can mentor''])"
    by (simp add: far_defs)
  have r': "rpc far_world Requests [Num 1] 0.5 50 None [EmbeddingCall ''I can mentor'']
           = (Inr [], [RpcCall Requests [Num 1] 0.5 50 None, EmbeddingCall ''I can mentor''])"
    by (simp add: far_defs)
  have n1: "''I need a mentor'' \<noteq> []" and n2: "''I can mentor'' \<noteq> []" by simp_all
  from free_text_empty_short_circuit[OF n1, of far_world "''I can mentor''"
      "[SyntheticCall ''I need a mentor'']" "[Num 1]"
      "[EmbeddingCall ''I can mentor'', SyntheticCall ''I need a mentor'']"
      "[RpcCall Offerings [Num 1] 0.5 50 None, EmbeddingCall ''I can mentor'',
                SyntheticCall ''I need a mentor'']"] s e r
  have a: "search_by_request far_world (Post (Field (Str ''I need a mentor'')))
     = (JsonResponse 200 (FlatResult ''I need a mentor'' []),
        [RpcCall Offerings [Num 1] 0.5 50 None, EmbeddingCall ''I can mentor'',
         SyntheticCall ''I need a mentor''])" by simp
  from free_text_empty_short_circuit[OF n2, of far_world _ _ _ _ _ "[Num 1]"
      "[EmbeddingCall ''I can mentor'']"
      "[RpcCall Requests [Num 1] 0.5 50 None, EmbeddingCall ''I can mentor'']"] e' r'
  have b: "search_by_offering far_world (Post (Field (Str ''I can mentor'')))
     = (JsonResponse 200 (FlatResult ''I can mentor'' []),
        [RpcCall Requests [Num 1] 0.5 50 None, EmbeddingCall ''I can mentor''])" by simp
  have c: "\<not> list_ex is_rerank
        [RpcCall Offerings [Num 1] 0.5 50 None, EmbeddingCall ''I can mentor'',
         SyntheticCall ''I need a mentor'']" by (simp add: is_rerank_def)
  from a b c show ?thesis by (intro conjI)
qed

section \<open>Claims on a re-ranking answer that cannot be parsed\<close>

lemma benign_not_rerank: "benign c \<Longrightarrow> \<not> is_rerank c"
  by (cases c) (simp_all add: benign_def is_rerank_def)

lemma settled_Nil: "settled w []"
  by (simp add: settled_def rerank_parse_error_def)

lemma settled_Cons:
  "settled w tr \<Longrightarrow> rerank_parse_error w (c # tr) = None \<Longrightarrow> settled w (c # tr)"
  by (auto simp: settled_def suffix_Cons)

lemma not_rerank_no_error: "\<not> is_rerank c \<Longrightarrow> rerank_parse_error w (c # tr) = None"
  by (simp add: rerank_parse_error_def)

lemma settled_extension:
  "settled w tr \<Longrightarrow> \<forall>c\<in>set new. \<not> is_rerank c \<Longrightarrow> settled w (new @ tr)"
  by (induction new) (simp_all add: settled_Cons not_rerank_no_error)

lemma settled_benign_extension:
  assumes "\<exists>new. tr' = new @ tr \<and> (\<forall>c\<in>set new. benign c)" and "settled w tr"
  shows "settled w tr'"
proof -
  from assms(1) obtain new where n: "tr' = new @ tr" "\<forall>c\<in>set new. benign c" by blast
  from n(2) have "\<forall>c\<in>set new. \<not> is_rerank c" by (simp add: benign_not_rerank)
  from settled_extension[OF assms(2) this] n(1) show ?thesis by simp
qed

lemma settled_rpc:
  assumes "rpc w tbl q threshold k ex tr = (res, tr')" and "settled w tr"
  shows "settled w tr'"
proof -
  from rpc_trace[OF assms(1)] have "tr' = RpcCall tbl q threshold k ex # tr" .
  moreover have "\<not> is_rerank (RpcCall tbl q threshold k ex)" by (simp add: is_rerank_def)
  ultimately show ?thesis using assms(2) by (simp add: settled_Cons not_rerank_no_error)
qed

lemma settled_validMatches:
  assumes "validMatches w raw tr = (cs, tr')" and "settled w tr"
  shows "settled w tr'"
proof -
  from validMatches_trace[OF assms(1)] obtain new where n: "tr' = new @ tr"
    "\<forall>c\<in>set new. \<exists>aid. c = AttendeeByIdCall aid" by blast
  from n(2) have "\<forall>c\<in>set new. \<not> is_rerank c" by (auto simp: is_rerank_def)
  from settled_extension[OF assms(2) this] n(1) show ?thesis by simp
qed

lemma settled_search_candidates:
  assumes "search_candidates w tbl x q tr = (cs, tr')" and "settled w tr"
  shows "settled w tr'"
proof -
  obtain r0 tr1 where r0: "rpc w tbl q 0.5 50 (Some x) tr = (r0, tr1)" by fastforce
  from settled_rpc[OF r0 assms(2)] have 1: "settled w tr1" .
  show ?thesis
  proof (cases r0)
    case (Inl msg)
    with assms(1) r0 1 show ?thesis by (simp add: search_candidates_def)
  next
    case (Inr raw)
    with assms(1) r0 have "validMatches w raw tr1 = (cs, tr')" by (simp add: search_candidates_def)
    from settled_validMatches[OF this 1] show ?thesis .
  qed
qed

lemma rerank_parse_error_kind:
  "rerank_parse_error w tr = Some e \<Longrightarrow> e = SyntaxError \<or> e = TypeError"
  by (auto simp: rerank_parse_error_def
      split: list.splits if_splits gen_response.splits sum.splits option.splits)

lemma rerankMatches_parse_error:
  assumes "matchDescriptions 0 ms = Some ds"
    and "rerank_parse_error w (RerankCall q qt ds k # tr) = Some e"
  shows "rerankMatches w q qt ms k tr = (Inl e, RerankCall q qt ds k # tr)"
proof -
  from assms(2) obtain t rt where g: "generateContent w (RerankCall q qt ds k # tr) = GenText t"
    and c: "clean_result_text t = Inr rt"
    and p: "(JSON_parse w rt = None \<and> e = SyntaxError)
          \<or> (\<exists>v. JSON_parse w rt = Some v \<and> \<not> sliceable v \<and> e = TypeError)"
    by (auto simp: rerank_parse_error_def
        split: if_splits gen_response.splits sum.splits option.splits)
  from p show ?thesis
  proof
    assume "JSON_parse w rt = None \<and> e = SyntaxError"
    with assms(1) g c show ?thesis by (simp add: rerankMatches_def select_results_def)
  next
    assume "\<exists>v. JSON_parse w rt = Some v \<and> \<not> sliceable v \<and> e = TypeError"
    then obtain v where "JSON_parse w rt = Some v" "\<not> sliceable v" "e = TypeError" by blast
    with assms(1) g c show ?thesis
      by (cases v) (simp_all add: rerankMatches_def select_results_def sliceable_def)
  qed
qed

lemma rerankMatches_settled:
  assumes "rerankMatches w q qt ms k tr = (res, tr')" and "settled w tr"
  shows "settled w tr' \<or> (\<exists>e. res = Inl e \<and> stopped_by w tr' e)"
proof -
  from rerankMatches_trace[OF assms(1)]
  consider "tr' = tr" | ds where "matchDescriptions 0 ms = Some ds" "tr' = RerankCall q qt ds k # tr"
    by blast
  then show ?thesis
  proof cases
    case 1
    with assms(2) show ?thesis by simp
  next
    case 2
    show ?thesis
    proof (cases "rerank_parse_error w tr'")
      case None
      with 2(2) assms(2) have "settled w tr'" by (simp add: settled_Cons)
      then show ?thesis ..
    next
      case (Some e)
      with 2(2) have "rerank_parse_error w (RerankCall q qt ds k # tr) = Some e" by simp
      from rerankMatches_parse_error[OF 2(1) this] assms(1) have "res = Inl e" by simp
      moreover from Some 2(2) assms(2) have "stopped_by w tr' e" by (simp add: stopped_by_def)
      ultimately show ?thesis by blast
    qed
  qed
qed

lemma reranked_item_settled:
  assumes cand: "candidates t tr = (c, tr1)" "settled w tr1"
    and step: "step t tr =
     (case candidates t tr of
        (Inl e, tr1) \<Rightarrow> (Inl e, tr1)
      | (Inr cs, tr1) \<Rightarrow>
          if cs = [] then (Inr None, tr1)
          else
            (case rerankMatches w t qt cs 25 tr1 of
               (Inl e, tr2) \<Rightarrow> (Inl e, tr2)
             | (Inr ms, tr2) \<Rightarrow> (Inr (Some ms), tr2)))"
    and res: "step t tr = (res, tr')"
  shows "settled w tr' \<or> (\<exists>e. res = Inl e \<and> stopped_by w tr' e)"
proof (cases c)
  case (Inl e)
  with cand step res show ?thesis by simp
next
  case (Inr cs)
  show ?thesis
  proof (cases "cs = []")
    case True
    with Inr cand step res show ?thesis by simp
  next
    case False
    obtain r tr2 where rr: "rerankMatches w t qt cs 25 tr1 = (r, tr2)" by fastforce
    from rerankMatches_settled[OF rr cand(2)]
    have d: "settled w tr2 \<or> (\<exists>e. r = Inl e \<and> stopped_by w tr2 e)" .
    from Inr False cand(1) step res rr have "tr' = tr2"
      "res = (case r of Inl e \<Rightarrow> Inl e | Inr ms \<Rightarrow> Inr (Some ms))"
      by (auto split: sum.splits)
    with d show ?thesis by (cases r) auto
  qed
qed

lemma request_candidates_settled:
  assumes "request_candidates w x t tr = (c, tr')" and "settled w tr"
  shows "settled w tr'"
proof -
  obtain r1 tr1 where s: "generateSyntheticOffering w t tr = (r1, tr1)" by fastforce
  from settled_benign_extension[OF generateSyntheticOffering_benign[OF s] assms(2)]
  have 1: "settled w tr1" .
  show ?thesis
  proof (cases r1)
    case (Inl e)
    with assms(1) s 1 show ?thesis by (simp add: request_candidates_def)
  next
    case (Inr so)
    obtain r2 tr2 where e: "generateEmbedding w so tr1 = (r2, tr2)" by fastforce
    from settled_benign_extension[OF generateEmbedding_benign[OF e] 1]
    have 2: "settled w tr2" .
    show ?thesis
    proof (cases r2)
      case (Inl e')
      with assms(1) s Inr e 2 show ?thesis by (simp add: request_candidates_def)
    next
      case (Inr q)
      obtain cs tr3 where sc: "search_candidates w Offerings x q tr2 = (cs, tr3)" by fastforce
      with assms(1) s \<open>r1 = Inr so\<close> e Inr have "tr' = tr3" by (simp add: request_candidates_def)
      with settled_search_candidates[OF sc 2] show ?thesis by simp
    qed
  qed
qed

lemma offering_candidates_settled:
  assumes "offering_candidates w x t tr = (c, tr')" and "settled w tr"
  shows "settled w tr'"
proof -
  obtain r1 tr1 where e: "generateEmbedding w t tr = (r1, tr1)" by fastforce
  from settled_benign_extension[OF generateEmbedding_benign[OF e] assms(2)]
  have 1: "settled w tr1" .
  show ?thesis
  proof (cases r1)
    case (Inl e')
    with assms(1) e 1 show ?thesis by (simp add: offering_candidates_def)
  next
    case (Inr q)
    obtain cs tr2 where sc: "search_candidates w Requests x q tr1 = (cs, tr2)" by fastforce
    with assms(1) e Inr have "tr' = tr2" by (simp add: offering_candidates_def)
    with settled_search_candidates[OF sc 1] show ?thesis by simp
  qed
qed

lemma request_matches_settled:
  assumes "request_matches w x t tr = (res, tr')" and "settled w tr"
  shows "settled w tr' \<or> (\<exists>e. res = Inl e \<and> stopped_by w tr' e)"
proof -
  obtain c tr1 where c: "request_candidates w x t tr = (c, tr1)" by fastforce
  from request_candidates_settled[OF c assms(2)] have 1: "settled w tr1" .
  from c 1 request_matches_candidates assms(1) show ?thesis
    by (rule reranked_item_settled[where candidates = "request_candidates w x"
          and step = "request_matches w x"])
qed

lemma offering_matches_settled:
  assumes "offering_matches w x t tr = (res, tr')" and "settled w tr"
  shows "settled w tr' \<or> (\<exists>e. res = Inl e \<and> stopped_by w tr' e)"
proof -
  obtain c tr1 where c: "offering_candidates w x t tr = (c, tr1)" by fastforce
  from offering_candidates_settled[OF c assms(2)] have 1: "settled w tr1" .
  from c 1 offering_matches_candidates assms(1) show ?thesis
    by (rule reranked_item_settled[where candidates = "offering_candidates w x"
          and step = "offering_matches w x"])
qed

lemma groups_loop_settled:
  assumes step: "\<And>t tr res tr'. step t tr = (res, tr') \<Longrightarrow> settled w tr \<Longrightarrow>
                   settled w tr' \<or> (\<exists>e. res = Inl e \<and> stopped_by w tr' e)"
  shows "groups_loop step ts tr = (res, tr') \<Longrightarrow> settled w tr \<Longrightarrow>
           settled w tr' \<or> (\<exists>e. res = Inl e \<and> stopped_by w tr' e)"
proof (induction ts arbitrary: tr res tr')
  case Nil
  then show ?case by auto
next
  case (Cons t ts)
  obtain r1 tr1 where s: "step t tr = (r1, tr1)" by fastforce
  from step[OF s Cons.prems(2)]
  have d: "settled w tr1 \<or> (\<exists>e. r1 = Inl e \<and> stopped_by w tr1 e)" .
  show ?case
  proof (cases r1)
    case (Inl e)
    with Cons.prems(1) s have "res = Inl e" "tr' = tr1" by auto
    with d Inl show ?thesis by auto
  next
    case (Inr pushed)
    with d have q1: "settled w tr1" by simp
    obtain r2 tr2 where l: "groups_loop step ts tr1 = (r2, tr2)" by fastforce
    from Cons.IH[OF l q1]
    have d2: "settled w tr2 \<or> (\<exists>e. r2 = Inl e \<and> stopped_by w tr2 e)" .
    show ?thesis
    proof (cases r2)
      case (Inl e)
      with Cons.prems(1) s \<open>r1 = Inr pushed\<close> l have "res = Inl e" "tr' = tr2" by auto
      with d2 Inl show ?thesis by auto
    next
      case (Inr groups)
      with Cons.prems(1) s \<open>r1 = Inr pushed\<close> l have "tr' = tr2" by auto
      with d2 Inr show ?thesis by auto
    qed
  qed
qed

lemma bidirectional_settled:
  assumes "bidirectional w a tr = (resp, tr')" and "settled w tr"
  shows "settled w tr' \<or> (\<exists>e. resp = JsonResponse 500 (Thrown e) \<and> stopped_by w tr' e)"
proof -
  obtain r1 tr1 where 1: "select_texts w Offerings (id_col a) tr = (r1, tr1)" by fastforce
  from settled_benign_extension[OF select_texts_benign[OF 1] assms(2)]
  have q1: "settled w tr1" .
  show ?thesis
  proof (cases r1)
    case (Inl msg)
    with assms(1) 1 q1 show ?thesis by (auto simp: bidirectional_def)
  next
    case o: (Inr ots)
    obtain r2 tr2 where 2: "select_texts w Requests (id_col a) tr1 = (r2, tr2)" by fastforce
    from settled_benign_extension[OF select_texts_benign[OF 2] q1]
    have q2: "settled w tr2" .
    show ?thesis
    proof (cases r2)
      case (Inl msg)
      with assms(1) 1 o 2 q2 show ?thesis by (auto simp: bidirectional_def)
    next
      case r: (Inr rts)
      obtain r3 tr3 where 3: "groups_loop (request_matches w (id_col a)) rts tr2 = (r3, tr3)"
        by fastforce
      have d3: "settled w tr3 \<or> (\<exists>e. r3 = Inl e \<and> stopped_by w tr3 e)"
        using 3 q2 by (rule groups_loop_settled[rotated]) (rule request_matches_settled)
      show ?thesis
      proof (cases r3)
        case (Inl e)
        with assms(1) 1 o 2 r 3 have "resp = JsonResponse 500 (Thrown e)" "tr' = tr3"
          by (auto simp: bidirectional_def)
        with d3 Inl show ?thesis by auto
      next
        case g: (Inr gs1)
        with d3 have q3: "settled w tr3" by simp
        obtain r4 tr4 where 4: "groups_loop (offering_matches w (id_col a)) ots tr3 = (r4, tr4)"
          by fastforce
        have d4: "settled w tr4 \<or> (\<exists>e. r4 = Inl e \<and> stopped_by w tr4 e)"
          using 4 q3 by (rule groups_loop_settled[rotated]) (rule offering_matches_settled)
        show ?thesis
        proof (cases r4)
          case (Inl e)
          with assms(1) 1 o 2 r 3 g 4 have "resp = JsonResponse 500 (Thrown e)" "tr' = tr4"
            by (auto simp: bidirectional_def)
          with d4 Inl show ?thesis by auto
        next
          case (Inr gs2)
          with assms(1) 1 o 2 r 3 g 4 have "tr' = tr4" by (auto simp: bidirectional_def)
          with d4 Inr show ?thesis by simp
        qed
      qed
    qed
  qed
qed

lemma search_by_request_settled:
  assumes "search_by_request w req = (resp, tr)"
  shows "settled w tr \<or> (\<exists>e. resp = JsonResponse 500 (Thrown e) \<and> stopped_by w tr e)"
proof (cases "\<exists>query. req = Post (Field (Str query)) \<and> query \<noteq> []")
  case False
  with assms have "tr = []"
    by (auto simp: search_by_request_def
        split: http_request.splits payload.splits param.splits if_splits)
  then show ?thesis by (simp add: settled_Nil)
next
  case True
  then obtain query where req: "req = Post (Field (Str query))" "query \<noteq> []" by blast
  obtain r1 tr1 where s: "generateSyntheticOffering w query [] = (r1, tr1)" by fastforce
  from settled_benign_extension[OF generateSyntheticOffering_benign[OF s] settled_Nil]
  have q1: "settled w tr1" .
  show ?thesis
  proof (cases r1)
    case (Inl e)
    with assms req s q1 show ?thesis by (auto simp: search_by_request_def)
  next
    case so: (Inr so)
    obtain r2 tr2 where e: "generateEmbedding w so tr1 = (r2, tr2)" by fastforce
    from settled_benign_extension[OF generateEmbedding_benign[OF e] q1]
    have q2: "settled w tr2" .
    show ?thesis
    proof (cases r2)
      case (Inl e')
      with assms req s so e q2 show ?thesis by (auto simp: search_by_request_def)
    next
      case qe: (Inr qe)
      obtain r3 tr3 where r: "rpc w Offerings qe 0.5 50 None tr2 = (r3, tr3)" by fastforce
      from settled_rpc[OF r q2] have q3: "settled w tr3" .
      show ?thesis
      proof (cases r3)
        case (Inl msg)
        with assms req s so e qe r q3 show ?thesis by (auto simp: search_by_request_def)
      next
        case raw: (Inr raw)
        show ?thesis
        proof (cases "raw = []")
          case True
          with assms req s so e qe r raw q3 show ?thesis by (auto simp: search_by_request_def)
        next
          case False
          obtain valid tr4 where v: "validMatches w raw tr3 = (valid, tr4)" by fastforce
          from settled_validMatches[OF v q3] have q4: "settled w tr4" .
          obtain r5 tr5 where rr: "rerankMatches w query Request valid 25 tr4 = (r5, tr5)"
            by fastforce
          from rerankMatches_settled[OF rr q4]
          have d: "settled w tr5 \<or> (\<exists>e. r5 = Inl e \<and> stopped_by w tr5 e)" .
          from assms req s so e qe r raw False v rr
          have "tr = tr5" "resp = (case r5 of Inl e \<Rightarrow> JsonResponse 500 (Thrown e)
                                    | Inr ms \<Rightarrow> JsonResponse 200 (FlatResult query ms))"
            by (auto simp: search_by_request_def split: sum.splits)
          with d show ?thesis by (cases r5) auto
        qed
      qed
    qed
  qed
qed

lemma search_by_offering_settled:
  assumes "search_by_offering w req = (resp, tr)"
  shows "settled w tr \<or> (\<exists>e. resp = JsonResponse 500 (Thrown e) \<and> stopped_by w tr e)"
proof (cases "\<exists>query. req = Post (Field (Str query)) \<and> query \<noteq> []")
  case False
  with assms have "tr = []"
    by (auto simp: search_by_offering_def
        split: http_request.splits payload.splits param.splits if_splits)
  then show ?thesis by (simp add: settled_Nil)
next
  case True
  then obtain query where req: "req = Post (Field (Str query))" "query \<noteq> []" by blast
  obtain r2 tr2 where e: "generateEmbedding w query [] = (r2, tr2)" by fastforce
  from settled_benign_extension[OF generateEmbedding_benign[OF e] settled_Nil]
  have q2: "settled w tr2" .
  show ?thesis
  proof (cases r2)
    case (Inl e')
    with assms req e q2 show ?thesis by (auto simp: search_by_offering_def)
  next
    case qe: (Inr qe)
    obtain r3 tr3 where r: "rpc w Requests qe 0.5 50 None tr2 = (r3, tr3)" by fastforce
    from settled_rpc[OF r q2] have q3: "settled w tr3" .
    show ?thesis
    proof (cases r3)
      case (Inl msg)
      with assms req e qe r q3 show ?thesis by (auto simp: search_by_offering_def)
    next
      case raw: (Inr raw)
      show ?thesis
      proof (cases "raw = []")
        case True
        with assms req e qe r raw q3 show ?thesis by (auto simp: search_by_offering_def)
      next
        case False
        obtain valid tr4 where v: "validMatches w raw tr3 = (valid, tr4)" by fastforce
        from settled_validMatches[OF v q3] have q4: "settled w tr4" .
        obtain r5 tr5 where rr: "rerankMatches w query Offering valid 25 tr4 = (r5, tr5)"
          by fastforce
        from rerankMatches_settled[OF rr q4]
        have d: "settled w tr5 \<or> (\<exists>e. r5 = Inl e \<and> stopped_by w tr5 e)" .
        from assms req e qe r raw False v rr
        have "tr = tr5" "resp = (case r5 of Inl e \<Rightarrow> JsonResponse 500 (Thrown e)
                                  | Inr ms \<Rightarrow> JsonResponse 200 (FlatResult query ms))"
          by (auto simp: search_by_offering_def split: sum.splits)
        with d show ?thesis by (cases r5) auto
      qed
    qed
  qed
qed

lemma search_by_username_settled:
  assumes "search_by_username w req = (resp, tr)"
  shows "settled w tr \<or> (\<exists>e. resp = JsonResponse 500 (Thrown e) \<and> stopped_by w tr e)"
proof (cases "\<exists>name. req = Post (Field (Str name)) \<and> name \<noteq> []")
  case False
  with assms have "tr = []"
    by (auto simp: search_by_username_def
        split: http_request.splits payload.splits param.splits if_splits)
  then show ?thesis by (simp add: settled_Nil)
next
  case True
  then obtain name where req: "req = Post (Field (Str name))" "name \<noteq> []" by blast
  obtain r1 tr1 where s: "resolve_attendee w name [] = (r1, tr1)" by fastforce
  from settled_benign_extension[OF resolve_attendee_benign[OF s] settled_Nil]
  have q1: "settled w tr1" .
  show ?thesis
  proof (cases r1)
    case (SearchFailed msg)
    with assms req s q1 show ?thesis by (auto simp: search_by_username_def)
  next
    case NotFound
    with assms req s q1 show ?thesis by (auto simp: search_by_username_def)
  next
    case (Found a)
    with assms req s have "bidirectional w a tr1 = (resp, tr)"
      by (simp add: search_by_username_def)
    from bidirectional_settled[OF this q1] show ?thesis .
  qed
qed

lemma stopped_run:
  assumes "settled w tr \<or> (\<exists>e'. resp = JsonResponse 500 (Thrown e') \<and> stopped_by w tr e')"
    and "suffix tr_f tr" and "rerank_parse_error w tr_f = Some e"
  shows "resp = JsonResponse 500 (Thrown e) \<and> tr = tr_f"
  using assms(1)
proof
  assume "settled w tr"
  with assms(2,3) show ?thesis by (auto simp: settled_def)
next
  assume "\<exists>e'. resp = JsonResponse 500 (Thrown e') \<and> stopped_by w tr e'"
  then obtain e' where r: "resp = JsonResponse 500 (Thrown e')"
    and p: "rerank_parse_error w tr = Some e'" and q: "settled w (tl tr)"
    by (auto simp: stopped_by_def)
  from p obtain c rest where tr: "tr = c # rest" by (cases tr) (auto simp: rerank_parse_error_def)
  from assms(2) tr have "tr_f = tr \<or> suffix tr_f rest" by (simp add: suffix_Cons)
  then have "tr_f = tr"
  proof
    assume "suffix tr_f rest"
    with q tr assms(3) show ?thesis by (auto simp: settled_def)
  qed
  with assms(3) p r show ?thesis by simp
qed

lemma ex_mixed_error:
  "rerank_parse_error mixed_world
     (snd (search_by_username mixed_world (Post (Field (Str ''Ada Lovelace''))))) = Some SyntaxError"
  by (simp add: mixed_world_def mixed_generate_def eval_defs rerank_parse_error_def is_rerank_def)

lemma ex_mixed_requests:
  "list_ex (\<lambda>c. case c of RerankCall query Request ds topK \<Rightarrow> True | _ \<Rightarrow> False)
     (snd (search_by_username mixed_world (Post (Field (Str ''Ada Lovelace'')))))"
  by (simp add: mixed_world_def mixed_generate_def eval_defs)

text \<open>
  C2 (as amended). Take a re-ranking call whose answer cannot be read: \<open>tr_f\<close> is the
  trace up to that call, its head, and \<open>e\<close> the error, a \<open>SyntaxError\<close> when \<open>JSON.parse\<close>
  rejects the cleaned text and a \<open>TypeError\<close> when it reads a value that is neither an
  array nor a string. Then \<open>rerankMatches\<close>, asked at that point, sends this one request
  and throws \<open>e\<close>; and an entry point in whose run the call stands made no call after
  it and answers with status 500 and the error \<open>e\<close>, whatever the re-rankings before it
  returned. No entry point returns the candidates in the order of similarity.
\<close>

theorem unparseable_rerank_fails_the_request:
  assumes "rerank_parse_error w tr_f = Some e"
  shows "(e = SyntaxError \<or> e = TypeError)
       \<and> (matchDescriptions 0 matches = Some ds
            \<longrightarrow> tr_f = RerankCall query queryType ds topK # tr
            \<longrightarrow> rerankMatches w query queryType matches topK tr = (Inl e, tr_f))
       \<and> (search_by_request w req = (resp_req, tr_req) \<longrightarrow> suffix tr_f tr_req
            \<longrightarrow> resp_req = JsonResponse 500 (Thrown e) \<and> tr_req = tr_f)
       \<and> (search_by_offering w req = (resp_off, tr_off) \<longrightarrow> suffix tr_f tr_off
            \<longrightarrow> resp_off = JsonResponse 500 (Thrown e) \<and> tr_off = tr_f)
       \<and> (search_by_username w req = (resp_usr, tr_usr) \<longrightarrow> suffix tr_f tr_usr
            \<longrightarrow> resp_usr = JsonResponse 500 (Thrown e) \<and> tr_usr = tr_f)"
proof (intro conjI impI)
  from assms show "e = SyntaxError \<or> e = TypeError" by (rule rerank_parse_error_kind)
next
  assume "matchDescriptions 0 matches = Some ds" "tr_f = RerankCall query queryType ds topK # tr"
  with assms rerankMatches_parse_error
  show "rerankMatches w query queryType matches topK tr = (Inl e, tr_f)" by simp
next
  assume r: "search_by_request w req = (resp_req, tr_req)" and s: "suffix tr_f tr_req"
  from stopped_run[OF search_by_request_settled[OF r] s assms]
  show "resp_req = JsonResponse 500 (Thrown e)" "tr_req = tr_f" by simp_all
next
  assume r: "search_by_offering w req = (resp_off, tr_off)" and s: "suffix tr_f tr_off"
  from stopped_run[OF search_by_offering_settled[OF r] s assms]
  show "resp_off = JsonResponse 500 (Thrown e)" "tr_off = tr_f" by simp_all
next
  assume r: "search_by_username w req = (resp_usr, tr_usr)" and s: "suffix tr_f tr_usr"
  from stopped_run[OF search_by_username_settled[OF r] s assms]
  show "resp_usr = JsonResponse 500 (Thrown e)" "tr_usr = tr_f" by simp_all
qed

theorem unparseable_rerank_fails_the_request_witness:
  "rerank_parse_error mixed_world
     (snd (search_by_username mixed_world (Post (Field (Str ''Ada Lovelace''))))) = Some SyntaxError
   \<and> list_ex (\<lambda>c. case c of RerankCall query Request ds topK \<Rightarrow> True | _ \<Rightarrow> False)
       (snd (search_by_username mixed_world (Post (Field (Str ''Ada Lovelace'')))))
   \<and> fst (search_by_username mixed_world (Post (Field (Str ''Ada Lovelace''))))
       = JsonResponse 500 (Thrown SyntaxError)"
proof -
  note th = unparseable_rerank_fails_the_request[OF ex_mixed_error,
      where req = "Post (Field (Str ''Ada Lovelace''))"
        and resp_usr = "fst (search_by_username mixed_world (Post (Field (Str ''Ada Lovelace''))))"
        and tr_usr = "snd (search_by_username mixed_world (Post (Field (Str ''Ada Lovelace''))))"]
  from th have "fst (search_by_username mixed_world (Post (Field (Str ''Ada Lovelace''))))
       = JsonResponse 500 (Thrown SyntaxError)" by simp
  with ex_mixed_error ex_mixed_requests show ?thesis by (intro conjI)
qed

text \<open>
  C2 as stated fails: with a re-ranking answer that is not JSON, each of the three entry
  points answers with status 500.
\<close>

lemmas free_defs =
  search_by_request_def search_by_offering_def generateSyntheticOffering_def
  generateEmbedding_def trim_def is_js_space_def l2_normalize_one rpc_def
  match_offerings_def match_requests_def match_rows_def List.map_filter_simps with_distance_def
  excluded_def to_match_row_def attendee_by_id_def rerankMatches_def select_results_def
  clean_result_text_def startsWith_def fence_def slice0_def element_at_def js_less_def
  js_greater_eq_def Let_def ex_world_def ex_generate_def ex_parse_def ex_coerced_def ada_def
  bob_def

theorem no_fallback_counterexample:
  "fst (search_by_request (ex_world ''sorry, no JSON'') (Post (Field (Str ''I need a mentor''))))
     = JsonResponse 500 (Thrown SyntaxError)
   \<and> fst (search_by_offering (ex_world ''sorry, no JSON'') (Post (Field (Str ''I can mentor''))))
     = JsonResponse 500 (Thrown SyntaxError)
   \<and> fst (search_by_username (ex_world ''sorry, no JSON'') (Post (Field (Str ''Ada Lovelace''))))
     = JsonResponse 500 (Thrown SyntaxError)"
  by (simp add: free_defs eval_defs)

section \<open>Claims on the resolution of the name\<close>

lemma literal_not_wild:
  "literal_char c \<Longrightarrow> c \<noteq> CHR ''%'' \<and> c \<noteq> CHR ''*'' \<and> c \<noteq> CHR ''_''"
  by (auto simp: literal_char_def)

lemma ilike_pattern_literal:
  "\<forall>c\<in>set p. literal_char c \<Longrightarrow> ilike_pattern p v \<longleftrightarrow> map lower v = map lower p"
proof (induction p arbitrary: v)
  case Nil
  then show ?case by simp
next
  case (Cons c p)
  then have "c \<noteq> CHR ''%'' \<and> c \<noteq> CHR ''*'' \<and> c \<noteq> CHR ''_''" by (simp add: literal_not_wild)
  with Cons show ?case by (cases v) auto
qed

lemma ilike_pattern_percent: "ilike_pattern ''%'' v"
  by (induction v) auto

lemma ilike_pattern_literal_then_any:
  "\<forall>c\<in>set p. literal_char c \<Longrightarrow>
     ilike_pattern (p @ ''%'') v \<longleftrightarrow> (\<exists>s1 s2. v = s1 @ s2 \<and> map lower s1 = map lower p)"
proof (induction p arbitrary: v)
  case Nil
  then show ?case using ilike_pattern_percent by simp
next
  case (Cons c p)
  then have nw: "c \<noteq> CHR ''%'' \<and> c \<noteq> CHR ''*'' \<and> c \<noteq> CHR ''_''" by (simp add: literal_not_wild)
  show ?case
  proof (cases v)
    case Nil
    with nw show ?thesis by simp
  next
    case (Cons d ds)
    from Cons.prems have lp: "\<forall>c\<in>set p. literal_char c" by simp
    have "ilike_pattern ((c # p) @ ''%'') v \<longleftrightarrow> lower d = lower c \<and> ilike_pattern (p @ ''%'') ds"
      using nw Cons by simp
    also have "\<dots> \<longleftrightarrow> lower d = lower c \<and> (\<exists>s1 s2. ds = s1 @ s2 \<and> map lower s1 = map lower p)"
      using Cons.IH[OF lp] by simp
    also have "\<dots> \<longleftrightarrow> (\<exists>s1 s2. v = s1 @ s2 \<and> map lower s1 = map lower (c # p))"
    proof
      assume "lower d = lower c \<and> (\<exists>s1 s2. ds = s1 @ s2 \<and> map lower s1 = map lower p)"
      then obtain s1 s2 where "lower d = lower c" "ds = s1 @ s2" "map lower s1 = map lower p"
        by blast
      with Cons have "v = (d # s1) @ s2 \<and> map lower (d # s1) = map lower (c # p)" by simp
      then show "\<exists>s1 s2. v = s1 @ s2 \<and> map lower s1 = map lower (c # p)" by blast
    next
      assume "\<exists>s1 s2. v = s1 @ s2 \<and> map lower s1 = map lower (c # p)"
      then obtain s1 s2 where s: "v = s1 @ s2" "map lower s1 = map lower (c # p)" by blast
      from s(2) obtain e s1' where s1: "s1 = e # s1'" by (cases s1) auto
      with s Cons have "d = e" "ds = s1' @ s2" "lower e = lower c" "map lower s1' = map lower p"
        by auto
      then show "lower d = lower c \<and> (\<exists>s1 s2. ds = s1 @ s2 \<and> map lower s1 = map lower p)"
        by blast
    qed
    finally show ?thesis .
  qed
qed

lemma ilike_pattern_any_then:
  "ilike_pattern (CHR ''%'' # q) v \<longleftrightarrow> (\<exists>pre s. v = pre @ s \<and> ilike_pattern q s)"
proof (induction v)
  case Nil
  then show ?case by simp
next
  case (Cons d ds)
  have "ilike_pattern (CHR ''%'' # q) (d # ds)
          \<longleftrightarrow> ilike_pattern q (d # ds) \<or> ilike_pattern (CHR ''%'' # q) ds" by simp
  also have "\<dots> \<longleftrightarrow> ilike_pattern q (d # ds) \<or> (\<exists>pre s. ds = pre @ s \<and> ilike_pattern q s)"
    using Cons.IH by simp
  also have "\<dots> \<longleftrightarrow> (\<exists>pre s. d # ds = pre @ s \<and> ilike_pattern q s)"
  proof
    assume "ilike_pattern q (d # ds) \<or> (\<exists>pre s. ds = pre @ s \<and> ilike_pattern q s)"
    then show "\<exists>pre s. d # ds = pre @ s \<and> ilike_pattern q s"
    proof
      assume "ilike_pattern q (d # ds)"
      then have "d # ds = [] @ (d # ds) \<and> ilike_pattern q (d # ds)" by simp
      then show ?thesis by blast
    next
      assume "\<exists>pre s. ds = pre @ s \<and> ilike_pattern q s"
      then obtain pre s where "ds = pre @ s" "ilike_pattern q s" by blast
      then have "d # ds = (d # pre) @ s \<and> ilike_pattern q s" by simp
      then show ?thesis by blast
    qed
  next
    assume "\<exists>pre s. d # ds = pre @ s \<and> ilike_pattern q s"
    then obtain pre s where ps: "d # ds = pre @ s" "ilike_pattern q s" by blast
    show "ilike_pattern q (d # ds) \<or> (\<exists>pre s. ds = pre @ s \<and> ilike_pattern q s)"
    proof (cases pre)
      case Nil
      with ps show ?thesis by simp
    next
      case (Cons e pre')
      with ps have "ds = pre' @ s" by simp
      with ps(2) show ?thesis by blast
    qed
  qed
  finally show ?case .
qed

lemma ilike_pattern_contains:
  assumes "\<forall>c\<in>set p. literal_char c"
  shows "ilike_pattern (''%'' @ p @ ''%'') v \<longleftrightarrow> sublist (map lower p) (map lower v)"
proof -
  have "ilike_pattern (''%'' @ p @ ''%'') v
          \<longleftrightarrow> (\<exists>pre s. v = pre @ s \<and> ilike_pattern (p @ ''%'') s)"
    using ilike_pattern_any_then[of "p @ ''%''" v] by simp
  also have "\<dots> \<longleftrightarrow> (\<exists>pre s1 s2. v = pre @ s1 @ s2 \<and> map lower s1 = map lower p)"
    using ilike_pattern_literal_then_any[OF assms] by metis
  also have "\<dots> \<longleftrightarrow> sublist (map lower p) (map lower v)"
  proof
    assume "\<exists>pre s1 s2. v = pre @ s1 @ s2 \<and> map lower s1 = map lower p"
    then obtain pre s1 s2 where "v = pre @ s1 @ s2" "map lower s1 = map lower p" by blast
    then have "map lower v = map lower pre @ map lower p @ map lower s2" by simp
    then show "sublist (map lower p) (map lower v)" unfolding sublist_def by blast
  next
    assume "sublist (map lower p) (map lower v)"
    then obtain ps ss where "map lower v = ps @ map lower p @ ss" unfolding sublist_def by blast
    then obtain pre r where 1: "v = pre @ r" "map lower r = map lower p @ ss"
      by (metis map_eq_append_conv)
    then obtain s1 s2 where "r = s1 @ s2" "map lower s1 = map lower p"
      by (metis map_eq_append_conv)
    with 1 show "\<exists>pre s1 s2. v = pre @ s1 @ s2 \<and> map lower s1 = map lower p" by blast
  qed
  finally show ?thesis .
qed

lemma ilike_exact: "\<forall>c\<in>set p. literal_char c \<Longrightarrow> ilike column p \<longleftrightarrow> ci_equal column p"
  by (cases column) (simp_all add: ilike_def ci_equal_def ilike_pattern_literal)

lemma ilike_contains:
  "\<forall>c\<in>set p. literal_char c \<Longrightarrow> ilike column (''%'' @ p @ ''%'') \<longleftrightarrow> ci_contains column p"
  by (cases column) (simp_all add: ilike_def ci_contains_def ilike_pattern_contains del: append.simps)

lemma set_trim: "set (trim s) \<subseteq> set s"
proof -
  have "set (trim s) \<subseteq> set (rev (dropWhile is_js_space s))"
    unfolding trim_def by (auto dest: set_dropWhileD)
  also have "\<dots> \<subseteq> set s" by (auto dest: set_dropWhileD)
  finally show ?thesis .
qed

lemma set_split_ws: "t \<in> set (split_ws cur s) \<Longrightarrow> set t \<subseteq> set cur \<union> set s"
proof (induction cur s arbitrary: t rule: split_ws.induct)
  case (1 cur)
  then show ?case by simp
next
  case (2 cur c cs)
  show ?case
  proof (cases "is_js_space c")
    case True
    with "2.prems" have "t = rev cur \<or> t \<in> set (split_ws [] (dropWhile is_js_space cs))" by simp
    then show ?thesis
    proof
      assume "t = rev cur" then show ?thesis by auto
    next
      assume "t \<in> set (split_ws [] (dropWhile is_js_space cs))"
      from "2.IH"(1)[OF True this] have "set t \<subseteq> set (dropWhile is_js_space cs)" by simp
      then show ?thesis by (auto dest: set_dropWhileD)
    qed
  next
    case False
    with "2.prems" have "t \<in> set (split_ws (c # cur) cs)" by simp
    from "2.IH"(2)[OF False this] show ?thesis by auto
  qed
qed

lemma set_nameParts: "t \<in> set (nameParts name) \<Longrightarrow> set t \<subseteq> set name"
  unfolding nameParts_def using set_split_ws[of t "[]" "trim name"] set_trim[of name] by auto

lemma set_join: "set (join ts sep) \<subseteq> \<Union> (set ` set ts) \<union> set sep"
  by (induction ts sep rule: join.induct) auto

lemma split_ws_nonempty: "split_ws cur s \<noteq> []"
  by (induction cur s rule: split_ws.induct) auto

lemma literal_tokens:
  assumes "\<forall>c\<in>set name. literal_char c"
  shows "\<forall>c\<in>set (hd (nameParts name)). literal_char c"
    and "\<forall>c\<in>set (last (nameParts name)). literal_char c"
    and "\<forall>c\<in>set (join (tl (nameParts name)) '' ''). literal_char c"
proof -
  have ne: "nameParts name \<noteq> []" by (simp add: nameParts_def split_ws_nonempty)
  then have "hd (nameParts name) \<in> set (nameParts name)" "last (nameParts name) \<in> set (nameParts name)"
    by simp_all
  with set_nameParts assms show "\<forall>c\<in>set (hd (nameParts name)). literal_char c"
    and "\<forall>c\<in>set (last (nameParts name)). literal_char c" by blast+
  have sp: "literal_char CHR '' ''" by (simp add: literal_char_def)
  show "\<forall>c\<in>set (join (tl (nameParts name)) '' ''). literal_char c"
  proof
    fix c assume "c \<in> set (join (tl (nameParts name)) '' '')"
    with set_join[of "tl (nameParts name)" "'' ''"]
    consider "c = CHR '' ''" | t where "t \<in> set (tl (nameParts name))" "c \<in> set t" by auto
    then show "literal_char c"
    proof cases
      case 1 with sp show ?thesis by simp
    next
      case 2
      from 2(1) ne have "t \<in> set (nameParts name)" by (meson list.set_sel(2))
      with set_nameParts 2(2) assms show ?thesis by blast
    qed
  qed
qed

lemma ilike_both_ok:
  "pg_error w (IlikeBothCall f l # tr) = None \<Longrightarrow>
     ilike_both w f l tr
       = (Inr (take 1 (filter (\<lambda>a. ilike (first_name a) f \<and> ilike (last_name a) l) (attendees w))),
          IlikeBothCall f l # tr)"
  by (simp add: ilike_both_def)

lemma ilike_either_ok:
  "pg_error w (IlikeEitherCall f l # tr) = None \<Longrightarrow>
     ilike_either w f l tr
       = (Inr (take 5 (filter (\<lambda>a. ilike (first_name a) (''%'' @ f @ ''%'')
                                   \<or> ilike (last_name a) (''%'' @ l @ ''%'')) (attendees w))),
          IlikeEitherCall f l # tr)"
  by (simp add: ilike_either_def)

lemma resolve_attendee_refines:
  assumes lit: "\<forall>c\<in>set name. literal_char c" and ok: "\<forall>tr. pg_error w tr = None"
  shows "resolve_attendee w name []
           = (fst (identity_resolution_spec (attendees w) name),
              rev (map (tier_call name) (snd (identity_resolution_spec (attendees w) name))))"
proof -
  let ?tokens = "nameParts name"
  let ?f = "hd ?tokens" and ?l1 = "join (tl ?tokens) '' ''" and ?l3 = "last ?tokens"
  let ?rows1 = "filter (\<lambda>a. ci_equal (first_name a) ?f \<and> ci_equal (last_name a) ?l1) (attendees w)"
  let ?rows2 = "filter (\<lambda>a. ci_contains (first_name a) name \<or> ci_contains (last_name a) name)
                  (attendees w)"
  let ?rows3 = "filter (\<lambda>a. ci_contains (first_name a) ?f \<or> ci_contains (last_name a) ?l3)
                  (attendees w)"
  note toks = literal_tokens[OF lit]
  have q1: "ilike_both w ?f ?l1 tr = (Inr (take 1 ?rows1), IlikeBothCall ?f ?l1 # tr)" for tr
    using ok by (simp add: ilike_both_ok ilike_exact[OF toks(1)] ilike_exact[OF toks(3)])
  have q2: "ilike_either w name name tr = (Inr (take 5 ?rows2), IlikeEitherCall name name # tr)" for tr
    using ok by (simp add: ilike_either_ok ilike_contains[OF lit] del: append.simps)
  have q3: "ilike_either w ?f ?l3 tr = (Inr (take 5 ?rows3), IlikeEitherCall ?f ?l3 # tr)" for tr
    using ok by (simp add: ilike_either_ok ilike_contains[OF toks(1)] ilike_contains[OF toks(2)]
        del: append.simps)
  show ?thesis
  proof (cases "length ?tokens \<ge> 2")
    case two: True
    show ?thesis
    proof (cases ?rows1)
      case (Cons a rest)
      with two q1 show ?thesis
        by (simp add: resolve_attendee_def strategy1_def strategy2_def strategy3_def
            query_result_def no_rows_def identity_resolution_spec_def tier_call_def Let_def)
    next
      case r1: Nil
      show ?thesis
      proof (cases ?rows2)
        case (Cons a rest)
        with two r1 q1 q2 show ?thesis
          by (simp add: resolve_attendee_def strategy1_def strategy2_def strategy3_def
              query_result_def no_rows_def identity_resolution_spec_def tier_call_def Let_def)
      next
        case r2: Nil
        show ?thesis
        proof (cases ?rows3)
          case (Cons a rest)
          with two r1 r2 q1 q2 q3 show ?thesis
            by (simp add: resolve_attendee_def strategy1_def strategy2_def strategy3_def
                query_result_def no_rows_def identity_resolution_spec_def tier_call_def Let_def)
        next
          case r3: Nil
          with two r1 r2 q1 q2 q3 show ?thesis
            by (simp add: resolve_attendee_def strategy1_def strategy2_def strategy3_def
                query_result_def no_rows_def identity_resolution_spec_def tier_call_def Let_def)
        qed
      qed
    qed
  next
    case one: False
    show ?thesis
    proof (cases ?rows2)
      case (Cons a rest)
      with one q2 show ?thesis
        by (simp add: resolve_attendee_def strategy1_def strategy2_def strategy3_def
            query_result_def no_rows_def identity_resolution_spec_def tier_call_def Let_def)
    next
      case Nil
      with one q2 show ?thesis
        by (simp add: resolve_attendee_def strategy1_def strategy2_def strategy3_def
            query_result_def no_rows_def identity_resolution_spec_def tier_call_def Let_def)
    qed
  qed
qed

lemmas resolve_defs =
  resolve_attendee_def strategy1_def strategy2_def strategy3_def nameParts_def trim_def
  is_js_space_def ilike_both_def ilike_either_def ilike_def lower_def query_result_def
  no_rows_def Let_def ex_world_def ada_def bob_def

lemmas spec_defs =
  identity_resolution_spec_def ci_equal_def ci_contains_def nameParts_def trim_def
  is_js_space_def lower_def Let_def ex_world_def ada_def bob_def

text \<open>
  C5 (as amended). For a name made of literal characters, and when no call of the
  datastore fails, the resolution runs the three tiers of the specification in order,
  each only when the one before gave no row, and takes the first row of the first tier
  that gives one; when no tier gives a row the entry point answers with status 404.
\<close>

theorem identity_resolution_three_tiers:
  assumes "\<forall>c\<in>set name. literal_char c" and "\<forall>tr. pg_error w tr = None"
  shows "resolve_attendee w name []
           = (fst (identity_resolution_spec (attendees w) name),
              rev (map (tier_call name) (snd (identity_resolution_spec (attendees w) name))))
       \<and> (name \<noteq> [] \<longrightarrow> fst (identity_resolution_spec (attendees w) name) = NotFound
            \<longrightarrow> fst (search_by_username w (Post (Field (Str name))))
                  = JsonResponse 404
                      (ErrorText (''No attendee found matching '' @ [CHR 0x27] @ name @ [CHR 0x27])))"
proof (intro conjI impI)
  show r: "resolve_attendee w name []
           = (fst (identity_resolution_spec (attendees w) name),
              rev (map (tier_call name) (snd (identity_resolution_spec (attendees w) name))))"
    using assms by (rule resolve_attendee_refines)
  assume "name \<noteq> []" "fst (identity_resolution_spec (attendees w) name) = NotFound"
  with r show "fst (search_by_username w (Post (Field (Str name))))
                  = JsonResponse 404
                      (ErrorText (''No attendee found matching '' @ [CHR 0x27] @ name @ [CHR 0x27]))"
    by (simp add: search_by_username_def)
qed

theorem identity_resolution_three_tiers_witness:
  "resolve_attendee (ex_world []) ''Ada Lovelace'' []
     = (Found ada, [IlikeBothCall ''Ada'' ''Lovelace''])
   \<and> resolve_attendee (ex_world []) ''love'' [] = (Found ada, [IlikeEitherCall ''love'' ''love''])
   \<and> resolve_attendee (ex_world []) ''Zed'' [] = (NotFound, [IlikeEitherCall ''Zed'' ''Zed''])"
proof -
  have ok: "\<forall>tr. pg_error (ex_world []) tr = None" by (simp add: ex_world_def)
  have l1: "\<forall>c\<in>set ''Ada Lovelace''. literal_char c" by (simp add: literal_char_def)
  have l2: "\<forall>c\<in>set ''love''. literal_char c" by (simp add: literal_char_def)
  have l3: "\<forall>c\<in>set ''Zed''. literal_char c" by (simp add: literal_char_def)
  have s1: "identity_resolution_spec (attendees (ex_world [])) ''Ada Lovelace'' = (Found ada, [Tier1])"
    by (simp add: spec_defs)
  have s2: "identity_resolution_spec (attendees (ex_world [])) ''love'' = (Found ada, [Tier2])"
    by (simp add: spec_defs sublist_Cons_right)
  have s3: "identity_resolution_spec (attendees (ex_world [])) ''Zed'' = (NotFound, [Tier2])"
    by (simp add: spec_defs sublist_Cons_right)
  have t1: "map (tier_call ''Ada Lovelace'') [Tier1] = [IlikeBothCall ''Ada'' ''Lovelace'']"
    by (simp add: tier_call_def nameParts_def trim_def is_js_space_def)
  from identity_resolution_three_tiers[OF l1 ok, THEN conjunct1] s1 t1
  have a: "resolve_attendee (ex_world []) ''Ada Lovelace'' []
     = (Found ada, [IlikeBothCall ''Ada'' ''Lovelace''])" by simp
  from identity_resolution_three_tiers[OF l2 ok, THEN conjunct1] s2
  have b: "resolve_attendee (ex_world []) ''love'' [] = (Found ada, [IlikeEitherCall ''love'' ''love''])"
    by (simp add: tier_call_def)
  from identity_resolution_three_tiers[OF l3 ok, THEN conjunct1] s3
  have c: "resolve_attendee (ex_world []) ''Zed'' [] = (NotFound, [IlikeEitherCall ''Zed'' ''Zed''])"
    by (simp add: tier_call_def)
  from a b c show ?thesis by (intro conjI)
qed

text \<open>
  C5 as stated fails. The first tier is a pattern match: the name \<open>B_b X_\<close> resolves to
  Bob Xu, whom no tier of the specification finds. And when the datastore fails, the
  entry point answers with status 500 and the datastore's error, not with 404.
\<close>

theorem identity_resolution_wildcard_counterexample:
  "fst (resolve_attendee (ex_world []) ''B_b X_'' []) = Found bob
   \<and> fst (identity_resolution_spec (attendees (ex_world [])) ''B_b X_'') = NotFound
   \<and> fst (search_by_username failing_world (Post (Field (Str ''Zed''))))
       = JsonResponse 500 (Thrown (PostgrestError ''connection refused''))"
proof (intro conjI)
  show "fst (resolve_attendee (ex_world []) ''B_b X_'' []) = Found bob"
    by (simp add: resolve_defs)
  show "fst (identity_resolution_spec (attendees (ex_world [])) ''B_b X_'') = NotFound"
    by (simp add: spec_defs sublist_Cons_right)
  show "fst (search_by_username failing_world (Post (Field (Str ''Zed''))))
       = JsonResponse 500 (Thrown (PostgrestError ''connection refused''))"
    by (simp add: search_by_username_def failing_world_def resolve_defs)
qed

section \<open>Claims on generateEmbedding\<close>

lemma generateEmbedding_values:
  assumes "txt \<noteq> []" and "embedContent w (EmbeddingCall txt # tr) = EmbedValues raw"
    and "raw \<noteq> []"
  shows "generateEmbedding w txt tr = (Inr (l2_normalize raw), EmbeddingCall txt # tr)"
  using assms by (simp add: generateEmbedding_def)

lemma ex_embed_zero:
  "generateEmbedding zero_embedding_world ''I can mentor'' []
     = (Inr [NaN, NaN], [EmbeddingCall ''I can mentor''])"
proof -
  have "embedContent zero_embedding_world [EmbeddingCall ''I can mentor''] = EmbedValues [0, 0]"
    by (simp add: zero_embedding_world_def)
  then have "generateEmbedding zero_embedding_world ''I can mentor'' []
      = (Inr (l2_normalize [0, 0]), [EmbeddingCall ''I can mentor''])"
    by (intro generateEmbedding_values) simp_all
  then show ?thesis by (simp only: l2_normalize_zeros)
qed

lemma ex_embed_overflow:
  "generateEmbedding overflowing_world ''I can mentor'' []
     = (Inr [Num 0, Num 0], [EmbeddingCall ''I can mentor''])"
proof -
  have "embedContent overflowing_world [EmbeddingCall ''I can mentor'']
      = EmbedValues [2 ^ 600, 2 ^ 600]"
    by (simp add: overflowing_world_def)
  then have "generateEmbedding overflowing_world ''I can mentor'' []
      = (Inr (l2_normalize [2 ^ 600, 2 ^ 600]), [EmbeddingCall ''I can mentor''])"
    by (intro generateEmbedding_values) simp_all
  then show ?thesis by (simp only: l2_normalize_huge)
qed

lemma ex_embed_underflow:
  "generateEmbedding underflowing_world ''I can mentor'' []
     = (Inr [PosInfinity], [EmbeddingCall ''I can mentor''])"
proof -
  have "embedContent underflowing_world [EmbeddingCall ''I can mentor'']
      = EmbedValues [1 / 2 ^ 600]"
    by (simp add: underflowing_world_def)
  then have "generateEmbedding underflowing_world ''I can mentor'' []
      = (Inr (l2_normalize [1 / 2 ^ 600]), [EmbeddingCall ''I can mentor''])"
    by (intro generateEmbedding_values) simp_all
  then show ?thesis by (simp only: l2_normalize_tiny)
qed

lemma ex_embed_rounded:
  "generateEmbedding pythagorean_world ''I can mentor'' []
     = (Inr [Num (5404319552844595 / 2 ^ 53), Num (7205759403792794 / 2 ^ 53)],
        [EmbeddingCall ''I can mentor''])"
proof -
  have "embedContent pythagorean_world [EmbeddingCall ''I can mentor''] = EmbedValues [3, 4]"
    by (simp add: pythagorean_world_def)
  then have "generateEmbedding pythagorean_world ''I can mentor'' []
      = (Inr (l2_normalize [3, 4]), [EmbeddingCall ''I can mentor''])"
    by (intro generateEmbedding_values) simp_all
  then show ?thesis by (simp only: l2_normalize_3_4)
qed

lemma ex_rounded_norm:
  "(5404319552844595 / 2 ^ 53) * (5404319552844595 / 2 ^ 53)
     + (7205759403792794 / 2 ^ 53) * (7205759403792794 / 2 ^ 53)
   = (1 + 3602879701896397 / 2 ^ 106 :: real)"
  by simp

text \<open>
  C8 (as amended). Let the text be non-empty and the raw vector have at most \<open>2^20\<close>
  components, not all zero, each either zero or of magnitude between \<open>2^-500\<close> and
  \<open>2^500\<close>. Then \<open>generateEmbedding\<close> returns a vector \<open>v\<close> of finite numbers; there is
  one positive number \<open>N\<close>, the norm as the code computes it, whose square is within the
  relative error \<open>(4n + 8) * 2^-53\<close> of the sum of the squares of the raw components
  (\<open>n\<close> is their number), every component of \<open>v\<close> is the rounding of the raw component
  divided by \<open>N\<close>, and the Euclidean norm of \<open>v\<close> differs from one by at most
  \<open>(4n + 8) * 2^-53\<close>.
\<close>

theorem embedding_is_unit_vector:
  assumes "txt \<noteq> []"
    and "embedContent w (EmbeddingCall txt # tr) = EmbedValues raw"
    and "\<exists>x\<in>set raw. x \<noteq> 0"
    and "\<forall>x\<in>set raw. x = 0 \<or> (1 / 2 ^ 500 \<le> \<bar>x\<bar> \<and> \<bar>x\<bar> \<le> 2 ^ 500)"
    and "length raw \<le> 2 ^ 20"
  shows "\<exists>v N. generateEmbedding w txt tr = (Inr (map Num v), EmbeddingCall txt # tr)
           \<and> 0 < N
           \<and> map (\<lambda>x. fl (x / N)) raw = map Num v
           \<and> (\<Sum>x\<leftarrow>raw. x * x) * (1 - real (4 * length raw + 8) * unit_roundoff) \<le> N * N
           \<and> N * N \<le> (\<Sum>x\<leftarrow>raw. x * x) * (1 + real (4 * length raw + 8) * unit_roundoff)
           \<and> \<bar>sqrt (\<Sum>y\<leftarrow>v. y * y) - 1\<bar> \<le> real (4 * length raw + 8) * unit_roundoff"
proof -
  from assms(3) have nonempty: "raw \<noteq> []" by auto
  from l2_normalize_unit[OF assms(4) assms(3) assms(5)]
  obtain v N where vN: "l2_normalize raw = map Num v" "0 < N"
      "map (\<lambda>x. fl (x / N)) raw = map Num v"
      "(\<Sum>x\<leftarrow>raw. x * x) * (1 - real (4 * length raw + 8) * unit_roundoff) \<le> N * N"
      "N * N \<le> (\<Sum>x\<leftarrow>raw. x * x) * (1 + real (4 * length raw + 8) * unit_roundoff)"
      "\<bar>sqrt (\<Sum>y\<leftarrow>v. y * y) - 1\<bar> \<le> real (4 * length raw + 8) * unit_roundoff"
    by blast
  have "generateEmbedding w txt tr = (Inr (map Num v), EmbeddingCall txt # tr)"
    using generateEmbedding_values[OF assms(1) assms(2) nonempty] vN(1) by simp
  with vN(2-6) show ?thesis by blast
qed

theorem embedding_is_unit_vector_witness:
  "\<exists>v N. generateEmbedding pythagorean_world ''I can mentor'' []
            = (Inr (map Num v), [EmbeddingCall ''I can mentor''])
         \<and> 0 < N
         \<and> map (\<lambda>x. fl (x / N)) [3, 4] = map Num v
         \<and> (\<Sum>x\<leftarrow>[3, 4]. x * x) * (1 - real (4 * length [3, 4 :: real] + 8) * unit_roundoff)
             \<le> N * N
         \<and> N * N
             \<le> (\<Sum>x\<leftarrow>[3, 4]. x * x) * (1 + real (4 * length [3, 4 :: real] + 8) * unit_roundoff)
         \<and> \<bar>sqrt (\<Sum>y\<leftarrow>v. y * y) - 1\<bar> \<le> real (4 * length [3, 4 :: real] + 8) * unit_roundoff"
proof -
  have text_given: "''I can mentor'' \<noteq> []" by simp
  have raw: "embedContent pythagorean_world [EmbeddingCall ''I can mentor''] = EmbedValues [3, 4]"
    by (simp add: pythagorean_world_def ex_world_def)
  have nonzero: "\<exists>x\<in>set [3, 4 :: real]. x \<noteq> 0" by simp
  have range: "\<forall>x\<in>set [3, 4 :: real]. x = 0 \<or> (1 / 2 ^ 500 \<le> \<bar>x\<bar> \<and> \<bar>x\<bar> \<le> 2 ^ 500)"
    by simp
  have count: "length [3, 4 :: real] \<le> 2 ^ 20" by simp
  show ?thesis by (rule embedding_is_unit_vector[OF text_given raw nonzero range count])
qed

text \<open>
  C8 as stated fails in four ways. For the zero vector the norm is zero, every component is
  \<open>0 / 0\<close>, and the call returns a vector of \<open>NaN\<close>. For \<open>[2^600, 2^600]\<close> the squares
  overflow, the norm is infinite and the call returns \<open>[0, 0]\<close>. For \<open>[2^-600]\<close> the square
  underflows to zero and the call returns \<open>[Infinity]\<close>. For \<open>[3, 4]\<close> the norm is \<open>5\<close> and
  the quotients \<open>3 / 5\<close> and \<open>4 / 5\<close> are rounded: the squares of the returned components
  add up to \<open>1 + 3602879701896397 / 2^106\<close>. None of the four is a unit vector.
\<close>

theorem embedding_of_zero_vector_counterexample:
  "generateEmbedding zero_embedding_world ''I can mentor'' []
     = (Inr [NaN, NaN], [EmbeddingCall ''I can mentor''])
   \<and> \<not> unit_vector [NaN, NaN]
   \<and> generateEmbedding overflowing_world ''I can mentor'' []
     = (Inr [Num 0, Num 0], [EmbeddingCall ''I can mentor''])
   \<and> \<not> unit_vector [Num 0, Num 0]
   \<and> generateEmbedding underflowing_world ''I can mentor'' []
     = (Inr [PosInfinity], [EmbeddingCall ''I can mentor''])
   \<and> \<not> unit_vector [PosInfinity]
   \<and> generateEmbedding pythagorean_world ''I can mentor'' []
     = (Inr [Num (5404319552844595 / 2 ^ 53), Num (7205759403792794 / 2 ^ 53)],
        [EmbeddingCall ''I can mentor''])
   \<and> \<not> unit_vector [Num (5404319552844595 / 2 ^ 53), Num (7205759403792794 / 2 ^ 53)]"
proof -
  have nan: "\<not> unit_vector [NaN, NaN]" by (simp add: unit_vector_def)
  have zero: "\<not> unit_vector [Num 0, Num 0]" by (simp add: unit_vector_def)
  have inf: "\<not> unit_vector [PosInfinity]" by (simp add: unit_vector_def)
  have rounded: "\<not> unit_vector [Num (5404319552844595 / 2 ^ 53), Num (7205759403792794 / 2 ^ 53)]"
  proof -
    have "sqrt (1 + 3602879701896397 / 2 ^ 106) \<noteq> 1" by simp
    then show ?thesis
      by (simp only: unit_vector_def to_vector.simps option.case list.map sum_list.Cons
          sum_list.Nil add_0_right ex_rounded_norm not_False_eq_True)
  qed
  from ex_embed_zero nan ex_embed_overflow zero ex_embed_underflow inf ex_embed_rounded rounded
  show ?thesis by (intro conjI)
qed

end
